theory Spec2Isabelle
  imports Main
begin

section \<open>Strings and paths\<close>

text \<open>
  Python renders an integer in an f-string in decimal. \<open>str_of_nat\<close> is that rendering for
  the natural numbers, \<open>str_of_int\<close> for the integers.
\<close>

definition digit_char :: "nat \<Rightarrow> char" where
  "digit_char d = ''0123456789'' ! d"

fun str_of_nat :: "nat \<Rightarrow> string" where
  "str_of_nat n =
     (if n < 10 then [digit_char n]
      else str_of_nat (n div 10) @ [digit_char (n mod 10)])"

declare str_of_nat.simps [simp del]

definition str_of_int :: "int \<Rightarrow> string" where
  "str_of_int i = (if i < 0 then ''-'' @ str_of_nat (nat (- i)) else str_of_nat (nat i))"

text \<open>
  \<open>str.strip()\<close> on the ASCII range: blanks, the control characters 9 to 13 and 28 to 31.
\<close>

definition is_space :: "char \<Rightarrow> bool" where
  "is_space c = (c \<in> {CHR '' '', CHR 0x09, CHR 0x0A, CHR 0x0B, CHR 0x0C, CHR 0x0D,
                       CHR 0x1C, CHR 0x1D, CHR 0x1E, CHR 0x1F})"

definition strip :: "string \<Rightarrow> string" where
  "strip s = rev (dropWhile is_space (rev (dropWhile is_space s)))"

definition rstrip_char :: "char \<Rightarrow> string \<Rightarrow> string" where
  "rstrip_char c s = rev (dropWhile (\<lambda>x. x = c) (rev s))"

definition startswith :: "string \<Rightarrow> string \<Rightarrow> bool" where
  "startswith s p = (take (length p) s = p)"

fun join_str :: "string \<Rightarrow> string list \<Rightarrow> string" where
  "join_str sep [] = []"
| "join_str sep [x] = x"
| "join_str sep (x # y # ys) = x @ sep @ join_str sep (y # ys)"

text \<open>
  \<open>str.rfind\<close> for a single character: the last index where it stands, or \<open>-1\<close>.
\<close>

definition rfind :: "string \<Rightarrow> char \<Rightarrow> int" where
  "rfind p c =
     (case filter (\<lambda>i. p ! i = c) (rev [0..<length p]) of
        [] \<Rightarrow> - 1
      | i # _ \<Rightarrow> int i)"

text \<open>
  The functions of \<open>os.path\<close> that the exporter calls, in their POSIX flavour (separator
  \<open>/\<close>, no alternative separator). \<open>splitext\<close> cuts at the last dot of the last path
  component, unless that component has nothing but dots before it.
\<close>

definition splitext :: "string \<Rightarrow> string \<times> string" where
  "splitext p =
     (let sepIndex = rfind p (CHR ''/'');
          dotIndex = rfind p (CHR ''.'')
      in if dotIndex > sepIndex \<and>
            list_ex (\<lambda>k. p ! k \<noteq> CHR ''.'') [nat (sepIndex + 1)..<nat dotIndex]
         then (take (nat dotIndex) p, drop (nat dotIndex) p)
         else (p, []))"

definition basename :: "string \<Rightarrow> string" where
  "basename p = drop (nat (rfind p (CHR ''/'') + 1)) p"

definition dirname :: "string \<Rightarrow> string" where
  "dirname p =
     (let hd_part = take (nat (rfind p (CHR ''/'') + 1)) p
      in if hd_part \<noteq> [] \<and> hd_part \<noteq> replicate (length hd_part) (CHR ''/'')
         then rstrip_char (CHR ''/'') hd_part else hd_part)"

definition path_join :: "string \<Rightarrow> string \<Rightarrow> string" where
  "path_join a b =
     (if startswith b ''/'' then b
      else if a = [] \<or> (a \<noteq> [] \<and> last a = CHR ''/'') then a @ b
      else a @ ''/'' @ b)"

section \<open>Collision-free destination paths\<close>

text \<open>
  The host file system is seen through the list of the paths that exist on it:
  \<open>os.path.exists(p)\<close> is \<open>p \<in> set ex\<close>. \<open>candidate base ext i\<close> is the f-string
  \<^verbatim>\<open>f"{base}__dup{i}{ext}"\<close>.
\<close>

definition candidate :: "string \<Rightarrow> string \<Rightarrow> nat \<Rightarrow> string" where
  "candidate base ext i = base @ ''__dup'' @ str_of_nat i @ ext"

lemma digit_char_inj: "a < 10 \<Longrightarrow> b < 10 \<Longrightarrow> digit_char a = digit_char b \<Longrightarrow> a = b"
proof -
  assume a: "a < 10" and b: "b < 10" and e: "digit_char a = digit_char b"
  have d: "distinct ''0123456789''" by simp
  from a b e show ?thesis
    unfolding digit_char_def using nth_eq_iff_index_eq[OF d, of a b] by simp
qed

lemma str_of_nat_nonempty: "str_of_nat n \<noteq> []"
  by (subst str_of_nat.simps) simp

lemma str_of_nat_inj: "str_of_nat n = str_of_nat m \<Longrightarrow> n = m"
proof (induction n arbitrary: m rule: str_of_nat.induct)
  case (1 n)
  show ?case
  proof (cases "n < 10")
    case True
    note n = this
    show ?thesis
    proof (cases "m < 10")
      case True
      with n "1.prems" show ?thesis
        by (simp add: str_of_nat.simps[of n] str_of_nat.simps[of m] digit_char_inj)
    next
      case False
      with n "1.prems" str_of_nat_nonempty[of "m div 10"] show ?thesis
        by (simp add: str_of_nat.simps[of n] str_of_nat.simps[of m])
    qed
  next
    case False
    note n = this
    show ?thesis
    proof (cases "m < 10")
      case True
      with n "1.prems" str_of_nat_nonempty[of "n div 10"] show ?thesis
        by (simp add: str_of_nat.simps[of n] str_of_nat.simps[of m])
    next
      case False
      with n "1.prems" have e: "str_of_nat (n div 10) = str_of_nat (m div 10)"
        and d: "digit_char (n mod 10) = digit_char (m mod 10)"
        by (simp_all add: str_of_nat.simps[of n] str_of_nat.simps[of m])
      from "1.IH"[OF n e] have "n div 10 = m div 10" .
      moreover from d have "n mod 10 = m mod 10" by (intro digit_char_inj) simp_all
      ultimately show ?thesis by (metis div_mult_mod_eq)
    qed
  qed
qed

lemma candidate_inj: "candidate base ext i = candidate base ext j \<Longrightarrow> i = j"
  by (simp add: candidate_def str_of_nat_inj)

lemma finite_candidates: "finite {j. candidate base ext j \<in> set ex}"
proof -
  have "inj (candidate base ext)" by (rule injI) (rule candidate_inj)
  then have "finite (candidate base ext -` set ex)" by (intro finite_vimageI) simp_all
  then show ?thesis by (simp add: vimage_def)
qed

text \<open>
  The \<^verbatim>\<open>while True\<close> loop of \<open>unique_destination_path\<close>, entered with \<open>i = 1\<close>. It ends
  because the candidates are pairwise different and only finitely many paths exist.
\<close>

function dup_loop :: "string list \<Rightarrow> string \<Rightarrow> string \<Rightarrow> nat \<Rightarrow> string" where
  "dup_loop ex base ext i =
     (if candidate base ext i \<notin> set ex then candidate base ext i
      else dup_loop ex base ext (i + 1))"
  by pat_completeness auto
termination
proof (relation "measure (\<lambda>(ex, base, ext, i). card {j. i \<le> j \<and> candidate base ext j \<in> set ex})")
  show "wf (measure (\<lambda>(ex, base, ext, i). card {j. i \<le> j \<and> candidate base ext j \<in> set ex}))"
    by simp
next
  fix ex :: "string list" and base ext :: string and i :: nat
  assume "\<not> candidate base ext i \<notin> set ex"
  then have mem: "candidate base ext i \<in> set ex" by simp
  have fin: "finite {j. i \<le> j \<and> candidate base ext j \<in> set ex}"
    by (rule finite_subset[OF _ finite_candidates[of base ext ex]]) auto
  have "{j. i + 1 \<le> j \<and> candidate base ext j \<in> set ex} \<subset> {j. i \<le> j \<and> candidate base ext j \<in> set ex}"
  proof
    show "{j. i + 1 \<le> j \<and> candidate base ext j \<in> set ex} \<subseteq> {j. i \<le> j \<and> candidate base ext j \<in> set ex}"
      by auto
    have "i \<in> {j. i \<le> j \<and> candidate base ext j \<in> set ex}" using mem by simp
    moreover have "i \<notin> {j. i + 1 \<le> j \<and> candidate base ext j \<in> set ex}" by simp
    ultimately show "{j. i + 1 \<le> j \<and> candidate base ext j \<in> set ex} \<noteq> {j. i \<le> j \<and> candidate base ext j \<in> set ex}"
      by blast
  qed
  then have "card {j. i + 1 \<le> j \<and> candidate base ext j \<in> set ex} < card {j. i \<le> j \<and> candidate base ext j \<in> set ex}"
    by (rule psubset_card_mono[OF fin])
  then show "((ex, base, ext, i + 1), (ex, base, ext, i)) \<in> measure (\<lambda>(ex, base, ext, i). card {j. i \<le> j \<and> candidate base ext j \<in> set ex})"
    by simp
qed

declare dup_loop.simps [simp del]

definition unique_destination_path :: "string list \<Rightarrow> string \<Rightarrow> string" where
  "unique_destination_path ex dst_path =
     (if dst_path \<notin> set ex then dst_path
      else (case splitext dst_path of (base, ext) \<Rightarrow> dup_loop ex base ext 1))"

section \<open>Exceptions, events and the state of a run\<close>

text \<open>
  A raised Python object. \<open>ValueError\<close> is what the validation code and \<open>strptime\<close>
  raise; \<open>Exception\<close> stands for every other subclass of \<open>Exception\<close> (the
  \<open>RuntimeError\<close> of the bridge helpers, \<open>OSError\<close>); \<open>BaseException\<close> stands for a
  raised object that is not an \<open>Exception\<close>, which \<^verbatim>\<open>except Exception\<close> lets through and
  only \<^verbatim>\<open>finally\<close> sees.
\<close>

datatype exn = ValueError string | Exception string | BaseException string

fun catchable :: "exn \<Rightarrow> bool" where
  "catchable (ValueError m) = True"
| "catchable (Exception m) = True"
| "catchable (BaseException m) = False"

fun str_exn :: "exn \<Rightarrow> string" where
  "str_exn (ValueError m) = m"
| "str_exn (Exception m) = m"
| "str_exn (BaseException m) = m"

text \<open>The tuples put on \<open>_ui_queue\<close>, by their kind.\<close>

datatype event =
    Log string
  | Scanned int
  | Matched int
  | Errors int
  | Progress_setup int
  | Progress_tick int
  | Progress_indeterminate
  | Done

text \<open>
  The calls that leave the worker: every device-bridge helper, and on the host the
  modification-time query and the transfer step of one file (the \<^verbatim>\<open>try\<close> block that holds
  \<open>ensure_dir\<close> and \<open>shutil.copy2\<close> or \<open>shutil.move\<close>). The log is kept for the proofs only.
\<close>

datatype call =
    Adb_path_exists string
  | Adb_count_files string
  | Adb_find_files string
  | Adb_stat_mtime string
  | Adb_pull string string
  | Getmtime string
  | Local_transfer string string string

fun is_transfer :: "call \<Rightarrow> bool" where
  "is_transfer (Adb_pull src dst) = True"
| "is_transfer (Local_transfer m src dst) = True"
| "is_transfer c = False"

fun is_bridge_call :: "call \<Rightarrow> bool" where
  "is_bridge_call (Getmtime f) = False"
| "is_bridge_call (Local_transfer m src dst) = False"
| "is_bridge_call c = True"

text \<open>
  The outside world of one run, as the answers it gives. A helper that may raise answers
  with \<open>Inl\<close> of the exception (or \<open>Some\<close> of it when it returns nothing). Instants are
  integers on the time line of naive local datetimes, in microseconds. The cancellation
  latch is set by another thread; the worker only polls it, so it is given by the number
  of the poll from which \<open>is_set()\<close> answers \<open>True\<close> (\<open>None\<close>: never in this run).
  \<open>strptime\<close>, \<open>strftime\<close> and \<open>relpath\<close> are the library functions with the format
  constants of the source applied.
\<close>

record env =
  cancel_at :: "nat option"
  adb_path_exists :: "string \<Rightarrow> string \<Rightarrow> exn + bool"
  adb_count_files :: "string \<Rightarrow> string \<Rightarrow> exn + int"
  adb_find_files :: "string \<Rightarrow> string \<Rightarrow> exn + string list"
  adb_stat_mtime :: "string \<Rightarrow> string \<Rightarrow> exn + int"
  adb_run_pull :: "string \<Rightarrow> string \<Rightarrow> string \<Rightarrow> exn option"
  isdir :: "string \<Rightarrow> bool"
  walk :: "string \<Rightarrow> (string \<times> string list) list"
  getmtime :: "string \<Rightarrow> exn + int"
  makedirs :: "string \<Rightarrow> exn option"
  copy2 :: "string \<Rightarrow> string \<Rightarrow> exn option"
  move :: "string \<Rightarrow> string \<Rightarrow> exn option"
  relpath :: "string \<Rightarrow> string \<Rightarrow> string"
  strptime :: "string \<Rightarrow> exn + int"
  strftime :: "int \<Rightarrow> string"

text \<open>
  What the application holds and changes: the three counters, the queue to the user
  interface, the message boxes shown, the paths that exist on the host, the number of
  polls of the latch so far, and the call log.
\<close>

record state =
  scanned :: int
  matched :: int
  errors :: int
  ui_queue :: "event list"
  dialogs :: "string list"
  existing :: "string list"
  polls :: nat
  trace :: "call list"

text \<open>The validated request, the tuple \<open>_validate_inputs\<close> returns.\<close>

record request =
  src_mode :: string
  src_value :: string
  dest_root :: string
  start_dt :: int
  end_dt :: int
  subfolders :: "string list"
  mode :: string

definition put :: "event \<Rightarrow> state \<Rightarrow> state" where
  "put e s = s\<lparr>ui_queue := ui_queue s @ [e]\<rparr>"

definition called :: "call \<Rightarrow> state \<Rightarrow> state" where
  "called c s = s\<lparr>trace := trace s @ [c]\<rparr>"

text \<open>\<open>self._cancel_event.is_set()\<close>: the answer, and one more poll counted.\<close>

definition is_set :: "env \<Rightarrow> state \<Rightarrow> bool \<times> state" where
  "is_set E s =
     ((case cancel_at E of None \<Rightarrow> False | Some k \<Rightarrow> k \<le> polls s),
      s\<lparr>polls := polls s + 1\<rparr>)"

text \<open>
  The three lines every handler of the workers starts with: count the error, put the
  count, put the log line.
\<close>

definition record_error :: "string \<Rightarrow> state \<Rightarrow> state" where
  "record_error msg s =
     put (Log msg) (put (Errors (errors s + 1)) (s\<lparr>errors := errors s + 1\<rparr>))"

text \<open>The start of each file's turn: lines 532 to 534 and 614 to 616.\<close>

definition count_scanned :: "state \<Rightarrow> state" where
  "count_scanned s =
     put (Progress_tick 1) (put (Scanned (scanned s + 1)) (s\<lparr>scanned := scanned s + 1\<rparr>))"

definition count_matched :: "string \<Rightarrow> state \<Rightarrow> state" where
  "count_matched msg s =
     put (Log msg) (put (Matched (matched s + 1)) (s\<lparr>matched := matched s + 1\<rparr>))"

text \<open>
  \<open>os.makedirs\<close> creates the directory and the missing ones above it: every prefix of
  the path that ends before a separator, and the path.
\<close>

definition created_dirs :: "string \<Rightarrow> string list" where
  "created_dirs p =
     filter (\<lambda>q. q \<noteq> [])
       (map (\<lambda>i. take i p) (filter (\<lambda>i. p ! i = CHR ''/'') [0..<length p]) @ [p])"

definition ensure_dir :: "env \<Rightarrow> string \<Rightarrow> state \<Rightarrow> exn option \<times> state" where
  "ensure_dir E path s =
     (if path \<notin> set (existing s)
      then (case makedirs E path of
              Some e \<Rightarrow> (Some e, s)
            | None \<Rightarrow> (None, s\<lparr>existing := created_dirs path @ existing s\<rparr>))
      else (None, s))"

section \<open>The device bridge\<close>

definition adb_pull :: "env \<Rightarrow> string \<Rightarrow> string \<Rightarrow> string \<Rightarrow> state \<Rightarrow> exn option \<times> state" where
  "adb_pull E device remote_path local_path s =
     (case ensure_dir E (dirname local_path) s of
        (Some e, s1) \<Rightarrow> (Some e, s1)
      | (None, s1) \<Rightarrow>
          (case adb_run_pull E device remote_path local_path of
             Some e \<Rightarrow> (Some e, s1)
           | None \<Rightarrow> (None, s1\<lparr>existing := local_path # existing s1\<rparr>)))"

definition media_root_candidates :: "string list" where
  "media_root_candidates =
     [''/storage/emulated/0/Android/media/com.whatsapp/WhatsApp/Media'',
      ''/storage/emulated/0/WhatsApp/Media'']"

fun find_roots_loop :: "env \<Rightarrow> string \<Rightarrow> string list \<Rightarrow> state \<Rightarrow> (exn + string list) \<times> state" where
  "find_roots_loop E device [] s = (Inr [], s)"
| "find_roots_loop E device (c # cs) s =
     (let s1 = called (Adb_path_exists c) s in
      case adb_path_exists E device c of
        Inl e \<Rightarrow> (Inl e, s1)
      | Inr b \<Rightarrow>
          (case find_roots_loop E device cs s1 of
             (Inl e, s2) \<Rightarrow> (Inl e, s2)
           | (Inr roots, s2) \<Rightarrow> (Inr (if b then c # roots else roots), s2)))"

definition adb_find_whatsapp_media_roots :: "env \<Rightarrow> string \<Rightarrow> state \<Rightarrow> (exn + string list) \<times> state" where
  "adb_find_whatsapp_media_roots E device s = find_roots_loop E device media_root_candidates s"

section \<open>The worker of the USB device mode\<close>

text \<open>
  Lines 493 to 498: the estimate of the number of files, one count per folder that exists.
  An exception of a helper leaves both loops.
\<close>

fun adb_total_subs :: "env \<Rightarrow> string \<Rightarrow> string \<Rightarrow> string list \<Rightarrow> int \<Rightarrow> state \<Rightarrow> (exn + int) \<times> state" where
  "adb_total_subs E device root [] tot s = (Inr tot, s)"
| "adb_total_subs E device root (sub # subs) tot s =
     (let remote_dir = root @ ''/'' @ sub;
          s1 = called (Adb_path_exists remote_dir) s in
      case adb_path_exists E device remote_dir of
        Inl e \<Rightarrow> (Inl e, s1)
      | Inr False \<Rightarrow> adb_total_subs E device root subs tot s1
      | Inr True \<Rightarrow>
          (let s2 = called (Adb_count_files remote_dir) s1 in
           case adb_count_files E device remote_dir of
             Inl e \<Rightarrow> (Inl e, s2)
           | Inr n \<Rightarrow> adb_total_subs E device root subs (tot + n) s2))"

fun adb_total_roots :: "env \<Rightarrow> string \<Rightarrow> string list \<Rightarrow> string list \<Rightarrow> int \<Rightarrow> state \<Rightarrow> (exn + int) \<times> state" where
  "adb_total_roots E device [] subs tot s = (Inr tot, s)"
| "adb_total_roots E device (root # roots) subs tot s =
     (case adb_total_subs E device root subs tot s of
        (Inl e, s1) \<Rightarrow> (Inl e, s1)
      | (Inr tot1, s1) \<Rightarrow> adb_total_roots E device roots subs tot1 s1)"

text \<open>Lines 500 to 505, and the same lines 588 to 593 of the local worker.\<close>

definition announce_total :: "int \<Rightarrow> state \<Rightarrow> state" where
  "announce_total tot s =
     (if tot > 0
      then put (Log (''Estimated total files to scan: '' @ str_of_int tot))
             (put (Progress_setup tot) s)
      else put (Log ''Scanning... (progress is indeterminate)'')
             (put Progress_indeterminate s))"

definition in_range :: "request \<Rightarrow> int \<Rightarrow> bool" where
  "in_range R mtime = (start_dt R \<le> mtime \<and> mtime \<le> end_dt R)"

definition exported_msg :: "env \<Rightarrow> string \<Rightarrow> int \<Rightarrow> string" where
  "exported_msg E rel_path mtime =
     ''Exported: '' @ rel_path @ ''  (modified: '' @ strftime E mtime @ '')''"

definition error_msg :: "string \<Rightarrow> string \<Rightarrow> exn \<Rightarrow> string" where
  "error_msg what subject e = what @ subject @ '' ('' @ str_exn e @ '')''"

definition adb_rel_path :: "string \<Rightarrow> string \<Rightarrow> string" where
  "adb_rel_path root remote_file =
     (let prefix = rstrip_char (CHR ''/'') root @ ''/''
      in if startswith remote_file prefix then drop (length prefix) remote_file
         else basename remote_file)"

text \<open>
  Lines 532 to 560: one file of the device, after the poll of the latch. The result is the
  exception that leaves the loops, if any, and the state.
\<close>

definition adb_process_file :: "env \<Rightarrow> request \<Rightarrow> string \<Rightarrow> string \<Rightarrow> state \<Rightarrow> exn option \<times> state" where
  "adb_process_file E R root remote_file s =
     (let s1 = called (Adb_stat_mtime remote_file) (count_scanned s) in
      case adb_stat_mtime E (src_value R) remote_file of
        Inl e \<Rightarrow>
          if catchable e
          then (None, record_error (error_msg ''ERROR reading time: '' remote_file e) s1)
          else (Some e, s1)
      | Inr mtime \<Rightarrow>
          if \<not> in_range R mtime then (None, s1)
          else
            (let rel_path = adb_rel_path root remote_file;
                 dst_file = unique_destination_path (existing s1) (path_join (dest_root R) rel_path)
             in case adb_pull E (src_value R) remote_file dst_file
                       (called (Adb_pull remote_file dst_file) s1) of
                  (None, s2) \<Rightarrow> (None, count_matched (exported_msg E rel_path mtime) s2)
                | (Some e, s2) \<Rightarrow>
                    if catchable e
                    then (None, record_error (error_msg ''ERROR exporting: '' rel_path e) s2)
                    else (Some e, s2)))"

text \<open>Lines 528 to 560: the files of one folder; the latch is polled before each.\<close>

fun adb_files_loop :: "env \<Rightarrow> request \<Rightarrow> string \<Rightarrow> string list \<Rightarrow> state \<Rightarrow> exn option \<times> state" where
  "adb_files_loop E R root [] s = (None, s)"
| "adb_files_loop E R root (remote_file # rest) s =
     (case is_set E s of
        (True, s1) \<Rightarrow> (None, s1)
      | (False, s1) \<Rightarrow>
          (case adb_process_file E R root remote_file s1 of
             (Some e, s2) \<Rightarrow> (Some e, s2)
           | (None, s2) \<Rightarrow> adb_files_loop E R root rest s2))"

text \<open>Lines 511 to 560: the chosen folders of one root; the latch is polled before each.\<close>

fun adb_subs_loop :: "env \<Rightarrow> request \<Rightarrow> string \<Rightarrow> string list \<Rightarrow> state \<Rightarrow> exn option \<times> state" where
  "adb_subs_loop E R root [] s = (None, s)"
| "adb_subs_loop E R root (sub # subs) s =
     (case is_set E s of
        (True, s1) \<Rightarrow> (None, s1)
      | (False, s1) \<Rightarrow>
          (let remote_dir = root @ ''/'' @ sub;
               s2 = called (Adb_path_exists remote_dir) s1 in
           case adb_path_exists E (src_value R) remote_dir of
             Inl e \<Rightarrow> (Some e, s2)
           | Inr False \<Rightarrow>
               adb_subs_loop E R root subs (put (Log (''Skipping missing folder: '' @ remote_dir)) s2)
           | Inr True \<Rightarrow>
               (let s3 = called (Adb_find_files remote_dir) s2 in
                case adb_find_files E (src_value R) remote_dir of
                  Inl e \<Rightarrow>
                    if catchable e
                    then adb_subs_loop E R root subs
                           (record_error (error_msg ''ERROR listing files in: '' remote_dir e) s3)
                    else (Some e, s3)
                | Inr remote_files \<Rightarrow>
                    (case adb_files_loop E R root remote_files s3 of
                       (Some e, s4) \<Rightarrow> (Some e, s4)
                     | (None, s4) \<Rightarrow> adb_subs_loop E R root subs s4))))"

text \<open>Lines 507 to 560: the roots; the latch is polled before each.\<close>

fun adb_roots_loop :: "env \<Rightarrow> request \<Rightarrow> string list \<Rightarrow> state \<Rightarrow> exn option \<times> state" where
  "adb_roots_loop E R [] s = (None, s)"
| "adb_roots_loop E R (root # roots) s =
     (case is_set E s of
        (True, s1) \<Rightarrow> (None, s1)
      | (False, s1) \<Rightarrow>
          (case adb_subs_loop E R root (subfolders R) s1 of
             (Some e, s2) \<Rightarrow> (Some e, s2)
           | (None, s2) \<Rightarrow> adb_roots_loop E R roots s2))"

text \<open>
  The handler of the \<^verbatim>\<open>try\<close> around a whole worker (lines 564 to 567 and 649 to 652): an
  \<open>Exception\<close> is counted and logged as fatal and the worker returns; anything else goes on
  to the caller.
\<close>

definition fatal_handler :: "string \<Rightarrow> exn \<Rightarrow> state \<Rightarrow> exn option \<times> state" where
  "fatal_handler what e s =
     (if catchable e then (None, record_error (what @ str_exn e) s) else (Some e, s))"

definition final_log :: "env \<Rightarrow> string \<Rightarrow> state \<Rightarrow> state" where
  "final_log E complete s =
     (case is_set E s of
        (c, s1) \<Rightarrow> put (Log (if c then ''Cancelled by user.'' else complete)) s1)"

definition worker_adb :: "env \<Rightarrow> request \<Rightarrow> state \<Rightarrow> exn option \<times> state" where
  "worker_adb E R s =
     (case adb_find_whatsapp_media_roots E (src_value R) s of
        (Inl e, s1) \<Rightarrow> fatal_handler ''FATAL (ADB mode): '' e s1
      | (Inr roots, s1) \<Rightarrow>
          if roots = []
          then (None,
                put (Log ''Tried: /storage/emulated/0/Android/media/com.whatsapp/WhatsApp/Media and /storage/emulated/0/WhatsApp/Media'')
                  (put (Log ''ERROR: Could not find WhatsApp Media folder on the device.'') s1))
          else
            (let s2 = put (Log (''Using WhatsApp Media root(s): '' @ join_str '', '' roots)) s1 in
             case adb_total_roots E (src_value R) roots (subfolders R) 0 s2 of
               (Inl e, s3) \<Rightarrow> fatal_handler ''FATAL (ADB mode): '' e s3
             | (Inr tot, s3) \<Rightarrow>
                 (case adb_roots_loop E R roots (announce_total tot s3) of
                    (Some e, s4) \<Rightarrow> fatal_handler ''FATAL (ADB mode): '' e s4
                  | (None, s4) \<Rightarrow> (None, final_log E ''Export complete (ADB mode).'' s4))))"

section \<open>The worker of the local folder mode\<close>

definition detect_media_root :: "env \<Rightarrow> string \<Rightarrow> string" where
  "detect_media_root E source_root =
     (let cand = path_join source_root ''Media''
      in if isdir E cand then cand else source_root)"

text \<open>
  \<open>_estimate_total_files_local\<close>. The walk of one folder is the list of its directories,
  each with its file names; \<open>Inl\<close> is the \<^verbatim>\<open>return\<close> from inside the loops.
\<close>

fun estimate_walk :: "(string \<times> string list) list \<Rightarrow> int \<Rightarrow> int + int" where
  "estimate_walk [] tot = Inr tot"
| "estimate_walk ((dirpath, files) # rest) tot =
     (let tot1 = tot + int (length files)
      in if tot1 > 500000 then Inl tot1 else estimate_walk rest tot1)"

fun estimate_subs :: "env \<Rightarrow> string \<Rightarrow> string list \<Rightarrow> int \<Rightarrow> int" where
  "estimate_subs E media_root [] tot = tot"
| "estimate_subs E media_root (sub # subs) tot =
     (let p = path_join media_root sub
      in if \<not> isdir E p then estimate_subs E media_root subs tot
         else (case estimate_walk (walk E p) tot of
                 Inl t \<Rightarrow> t
               | Inr t \<Rightarrow> estimate_subs E media_root subs t))"

definition estimate_total_files_local :: "env \<Rightarrow> string \<Rightarrow> string list \<Rightarrow> int" where
  "estimate_total_files_local E media_root subs = estimate_subs E media_root subs 0"

text \<open>
  Lines 633 to 637, the transfer step of the local mode: the directory of the destination,
  then the copy or the move.
\<close>

definition local_transfer :: "env \<Rightarrow> string \<Rightarrow> string \<Rightarrow> string \<Rightarrow> state \<Rightarrow> exn option \<times> state" where
  "local_transfer E m src_file dst_file s =
     (case ensure_dir E (dirname dst_file) s of
        (Some e, s1) \<Rightarrow> (Some e, s1)
      | (None, s1) \<Rightarrow>
          if m = ''copy''
          then (case copy2 E src_file dst_file of
                  Some e \<Rightarrow> (Some e, s1)
                | None \<Rightarrow> (None, s1\<lparr>existing := dst_file # existing s1\<rparr>))
          else (case move E src_file dst_file of
                  Some e \<Rightarrow> (Some e, s1)
                | None \<Rightarrow> (None, s1\<lparr>existing := dst_file # removeAll src_file (existing s1)\<rparr>)))"

text \<open>Lines 612 to 645: one file of the local tree, after the poll of the latch.\<close>

definition local_process_file :: "env \<Rightarrow> request \<Rightarrow> string \<Rightarrow> string \<Rightarrow> string \<Rightarrow> state \<Rightarrow> exn option \<times> state" where
  "local_process_file E R media_root root name s =
     (let src_file = path_join root name;
          s1 = called (Getmtime src_file) (count_scanned s) in
      case getmtime E src_file of
        Inl e \<Rightarrow>
          if catchable e
          then (None, record_error (error_msg ''ERROR reading time: '' src_file e) s1)
          else (Some e, s1)
      | Inr mtime \<Rightarrow>
          if \<not> in_range R mtime then (None, s1)
          else
            (let rel_path = relpath E src_file media_root;
                 dst_file = unique_destination_path (existing s1) (path_join (dest_root R) rel_path)
             in case local_transfer E (mode R) src_file dst_file
                       (called (Local_transfer (mode R) src_file dst_file) s1) of
                  (None, s2) \<Rightarrow> (None, count_matched (exported_msg E rel_path mtime) s2)
                | (Some e, s2) \<Rightarrow>
                    if catchable e
                    then (None, record_error (error_msg ''ERROR exporting: '' rel_path e) s2)
                    else (Some e, s2)))"

text \<open>Lines 608 to 645: the file names of one directory of the walk.\<close>

fun local_names_loop :: "env \<Rightarrow> request \<Rightarrow> string \<Rightarrow> string \<Rightarrow> string list \<Rightarrow> state \<Rightarrow> exn option \<times> state" where
  "local_names_loop E R media_root root [] s = (None, s)"
| "local_names_loop E R media_root root (name # rest) s =
     (case is_set E s of
        (True, s1) \<Rightarrow> (None, s1)
      | (False, s1) \<Rightarrow>
          (case local_process_file E R media_root root name s1 of
             (Some e, s2) \<Rightarrow> (Some e, s2)
           | (None, s2) \<Rightarrow> local_names_loop E R media_root root rest s2))"

text \<open>
  Lines 604 to 645: the directories of the walk of one folder. A \<^verbatim>\<open>break\<close> here leaves the
  walk; a \<^verbatim>\<open>break\<close> in the loop of the names only leaves that loop.
\<close>

fun local_walk_loop :: "env \<Rightarrow> request \<Rightarrow> string \<Rightarrow> (string \<times> string list) list \<Rightarrow> state \<Rightarrow> exn option \<times> state" where
  "local_walk_loop E R media_root [] s = (None, s)"
| "local_walk_loop E R media_root ((root, files) # rest) s =
     (case is_set E s of
        (True, s1) \<Rightarrow> (None, s1)
      | (False, s1) \<Rightarrow>
          (case local_names_loop E R media_root root files s1 of
             (Some e, s2) \<Rightarrow> (Some e, s2)
           | (None, s2) \<Rightarrow> local_walk_loop E R media_root rest s2))"

text \<open>Lines 595 to 645: the chosen folders.\<close>

fun local_subs_loop :: "env \<Rightarrow> request \<Rightarrow> string \<Rightarrow> string list \<Rightarrow> state \<Rightarrow> exn option \<times> state" where
  "local_subs_loop E R media_root [] s = (None, s)"
| "local_subs_loop E R media_root (sub # subs) s =
     (case is_set E s of
        (True, s1) \<Rightarrow> (None, s1)
      | (False, s1) \<Rightarrow>
          (let src_dir = path_join media_root sub in
           if \<not> isdir E src_dir
           then local_subs_loop E R media_root subs
                  (put (Log (''Skipping missing folder: '' @ src_dir)) s1)
           else (case local_walk_loop E R media_root (walk E src_dir) s1 of
                   (Some e, s2) \<Rightarrow> (Some e, s2)
                 | (None, s2) \<Rightarrow> local_subs_loop E R media_root subs s2)))"

definition worker_local :: "env \<Rightarrow> request \<Rightarrow> state \<Rightarrow> exn option \<times> state" where
  "worker_local E R s =
     (let media_root = detect_media_root E (src_value R);
          s1 = put (Log (''Media root detected: '' @ media_root)) s;
          tot = estimate_total_files_local E media_root (subfolders R)
      in case local_subs_loop E R media_root (subfolders R) (announce_total tot s1) of
           (Some e, s2) \<Rightarrow> fatal_handler ''FATAL (Local mode): '' e s2
         | (None, s2) \<Rightarrow> (None, final_log E ''Export complete (Local Folder mode).'' s2))"

section \<open>Dispatch, validation and start\<close>

text \<open>
  \<open>_worker_dispatch\<close>: the \<^verbatim>\<open>finally\<close> puts \<open>done\<close> whether the worker returned or an
  exception is on its way out.
\<close>

definition worker_dispatch :: "env \<Rightarrow> request \<Rightarrow> state \<Rightarrow> exn option \<times> state" where
  "worker_dispatch E R s =
     (case (if src_mode R = ''adb'' then worker_adb E R s else worker_local E R s) of
        (r, s1) \<Rightarrow> (r, put Done s1))"

text \<open>The variables of the form that \<open>_validate_inputs\<close> reads.\<close>

record vars =
  var_source_mode :: string
  var_device :: string
  var_source_folder :: string
  var_dest :: string
  var_start :: string
  var_end :: string
  var_mode :: string
  subfolder_vars :: "(string \<times> bool) list"

definition parse_yyyy_mm_dd :: "env \<Rightarrow> string \<Rightarrow> exn + int" where
  "parse_yyyy_mm_dd E s = strptime E (strip s)"

text \<open>
  \<open>replace(hour=23, minute=59, second=59)\<close>: the day and the microseconds stay.
\<close>

definition replace_hms :: "int \<Rightarrow> int" where
  "replace_hms t = (t div 86400000000) * 86400000000 + 86399000000 + t mod 1000000"

definition validate_inputs :: "env \<Rightarrow> vars \<Rightarrow> state \<Rightarrow> (exn + request) \<times> state" where
  "validate_inputs E V s =
     (let srcm = strip (var_source_mode V) in
      if srcm \<noteq> ''adb'' \<and> srcm \<noteq> ''local''
      then (Inl (ValueError ''Invalid Source Type selected.''), s)
      else
       (let dst = strip (var_dest V) in
        if dst = [] then (Inl (ValueError ''Please select a Destination folder.''), s)
        else
         (case ensure_dir E dst s of
            (Some e, s1) \<Rightarrow> (Inl e, s1)
          | (None, s1) \<Rightarrow>
             (case parse_yyyy_mm_dd E (var_start V) of
                Inl e \<Rightarrow> (Inl e, s1)
              | Inr start \<Rightarrow>
                 (case parse_yyyy_mm_dd E (var_end V) of
                    Inl e \<Rightarrow> (Inl e, s1)
                  | Inr end_day \<Rightarrow>
                     (let endt = replace_hms end_day;
                          chosen_subs = map fst (filter snd (subfolder_vars V));
                          m = var_mode V in
                      if endt < start
                      then (Inl (ValueError ''End date must be the same as or later than start date.''), s1)
                      else if chosen_subs = []
                      then (Inl (ValueError ''Please select at least one subfolder to scan.''), s1)
                      else if m \<noteq> ''copy'' \<and> m \<noteq> ''move''
                      then (Inl (ValueError ''Invalid export mode selected.''), s1)
                      else if srcm = ''adb''
                      then
                        (let device = strip (var_device V) in
                         if device = []
                         then (Inl (ValueError ''Please select a connected device (Refresh Devices if needed).''), s1)
                         else if m = ''move''
                         then (Inl (ValueError ''Move mode is not supported in USB Device (ADB) mode. Use Copy.''), s1)
                         else (Inr \<lparr>src_mode = ''adb'', src_value = device, dest_root = dst,
                                     start_dt = start, end_dt = endt, subfolders = chosen_subs,
                                     mode = ''copy''\<rparr>, s1))
                      else
                        (let src_folder = strip (var_source_folder V) in
                         if src_folder = [] \<or> \<not> isdir E src_folder
                         then (Inl (ValueError ''Please select a valid Source folder (copied from phone).''), s1)
                         else (Inr \<lparr>src_mode = ''local'', src_value = src_folder, dest_root = dst,
                                     start_dt = start, end_dt = endt, subfolders = chosen_subs,
                                     mode = m\<rparr>, s1))))))))"

text \<open>
  \<open>_on_start\<close>. A request that validation refuses ends in a message box; an accepted one
  resets the latch and the counters and starts the worker thread, whose run is taken here
  to its end. What the thread raises stays in the thread. An exception of validation that
  is no \<open>Exception\<close> leaves \<open>_on_start\<close> (\<open>Some\<close>).
\<close>

definition on_start :: "env \<Rightarrow> vars \<Rightarrow> state \<Rightarrow> exn option \<times> state" where
  "on_start E V s =
     (case validate_inputs E V s of
        (Inl e, s1) \<Rightarrow>
          if catchable e then (None, s1\<lparr>dialogs := dialogs s1 @ [str_exn e]\<rparr>)
          else (Some e, s1)
      | (Inr R, s1) \<Rightarrow>
          (None, snd (worker_dispatch E R
                        (s1\<lparr>polls := 0, scanned := 0, matched := 0, errors := 0\<rparr>))))"

section \<open>Vocabulary of the properties\<close>

definition transfer_calls :: "call list \<Rightarrow> call list" where
  "transfer_calls t = filter is_transfer t"

fun transfer_src :: "call \<Rightarrow> string" where
  "transfer_src (Adb_pull src dst) = src"
| "transfer_src (Local_transfer m src dst) = src"
| "transfer_src c = []"

definition transfer_sources :: "state \<Rightarrow> string list" where
  "transfer_sources s = map transfer_src (transfer_calls (trace s))"

definition adb_mtime_in_range :: "env \<Rightarrow> request \<Rightarrow> string \<Rightarrow> bool" where
  "adb_mtime_in_range E R f =
     (case adb_stat_mtime E (src_value R) f of Inl e \<Rightarrow> False | Inr m \<Rightarrow> in_range R m)"

definition local_mtime_in_range :: "env \<Rightarrow> request \<Rightarrow> string \<Rightarrow> bool" where
  "local_mtime_in_range E R f =
     (case getmtime E f of Inl e \<Rightarrow> False | Inr m \<Rightarrow> in_range R m)"


definition scanned_values :: "event list \<Rightarrow> int list" where
  "scanned_values evs = concat (map (\<lambda>e. case e of Scanned n \<Rightarrow> [n] | _ \<Rightarrow> []) evs)"

definition matched_values :: "event list \<Rightarrow> int list" where
  "matched_values evs = concat (map (\<lambda>e. case e of Matched n \<Rightarrow> [n] | _ \<Rightarrow> []) evs)"

definition errors_values :: "event list \<Rightarrow> int list" where
  "errors_values evs = concat (map (\<lambda>e. case e of Errors n \<Rightarrow> [n] | _ \<Rightarrow> []) evs)"

definition emitted :: "state \<Rightarrow> state \<Rightarrow> event list" where
  "emitted s s' = drop (length (ui_queue s)) (ui_queue s')"

definition within :: "int \<Rightarrow> int \<Rightarrow> int list \<Rightarrow> bool" where
  "within lo hi vs = (lo \<le> hi \<and> sorted vs \<and> (\<forall>v\<in>set vs. lo \<le> v \<and> v \<le> hi))"

definition emits :: "state \<Rightarrow> state \<Rightarrow> bool" where
  "emits s s' =
     (\<exists>evs. ui_queue s' = ui_queue s @ evs \<and> Done \<notin> set evs \<and>
        within (scanned s) (scanned s') (scanned_values evs) \<and>
        within (matched s) (matched s') (matched_values evs) \<and>
        within (errors s) (errors s') (errors_values evs))"


text \<open>
  The number of files enumerated: on the device, the length of the listing of every
  folder \<open>root/sub\<close> that exists and can be listed; on the host, the number of file
  names in the walk of every chosen folder that is a directory.
\<close>

definition adb_listed :: "env \<Rightarrow> string \<Rightarrow> string \<Rightarrow> int" where
  "adb_listed E device d =
     (case adb_path_exists E device d of
        Inr True \<Rightarrow> (case adb_find_files E device d of
                             Inr files \<Rightarrow> int (length files)
                           | Inl e \<Rightarrow> 0)
      | _ \<Rightarrow> 0)"

definition adb_enumerated :: "env \<Rightarrow> string \<Rightarrow> string list \<Rightarrow> string list \<Rightarrow> int" where
  "adb_enumerated E device roots subs =
     sum_list (map (\<lambda>root. sum_list (map (\<lambda>sub. adb_listed E device (root @ ''/'' @ sub)) subs)) roots)"

definition walk_files :: "(string \<times> string list) list \<Rightarrow> int" where
  "walk_files dirs = sum_list (map (\<lambda>d. int (length (snd d))) dirs)"

definition local_enumerated :: "env \<Rightarrow> string \<Rightarrow> string list \<Rightarrow> int" where
  "local_enumerated E media_root subs =
     sum_list (map (\<lambda>sub. if isdir E (path_join media_root sub)
                             then walk_files (walk E (path_join media_root sub)) else 0) subs)"

definition found_roots :: "env \<Rightarrow> string \<Rightarrow> string list" where
  "found_roots E device = filter (\<lambda>c. adb_path_exists E device c = Inr True) media_root_candidates"

text \<open>
  The number of files that the listings recorded in a call log returned.
\<close>

definition listing_size :: "env \<Rightarrow> string \<Rightarrow> call \<Rightarrow> int" where
  "listing_size E device c =
     (case c of
        Adb_find_files d \<Rightarrow> (case adb_find_files E device d of
                                     Inr files \<Rightarrow> int (length files)
                                   | Inl e \<Rightarrow> 0)
      | _ \<Rightarrow> 0)"

definition listed_in :: "env \<Rightarrow> string \<Rightarrow> call list \<Rightarrow> int" where
  "listed_in E device tr = sum_list (map (listing_size E device) tr)"

text \<open>
  The calls of the scan proper: listing a folder, reading a time, transferring a file. The
  existence probes and the counts also serve the search for the roots and the estimate,
  which come before the scan.
\<close>

fun is_scan_call :: "call \<Rightarrow> bool" where
  "is_scan_call (Adb_path_exists p) = False"
| "is_scan_call (Adb_count_files p) = False"
| "is_scan_call c = True"

definition scan_calls :: "call list \<Rightarrow> call list" where
  "scan_calls tr = filter is_scan_call tr"

text \<open>
  Two quantities that no step of a run lets grow when the latch is set from poll \<open>k\<close> on:
  the scanned count plus the number of polls that are still to answer \<open>False\<close>, and the
  weight of the call log plus twice that number, for a weight of at most one per call.
\<close>

definition scan_potential :: "nat \<Rightarrow> state \<Rightarrow> int" where
  "scan_potential k s = scanned s + int (k - polls s)"

definition call_potential :: "(call \<Rightarrow> nat) \<Rightarrow> nat \<Rightarrow> state \<Rightarrow> nat" where
  "call_potential w k s = sum_list (map w (trace s)) + 2 * (k - polls s)"

definition scan_weight :: "call \<Rightarrow> nat" where
  "scan_weight c = (if is_scan_call c then 1 else 0)"

text \<open>The number of directories in the walks of the chosen folders that are directories.\<close>

definition local_walk_dirs :: "env \<Rightarrow> string \<Rightarrow> string list \<Rightarrow> int" where
  "local_walk_dirs E media_root subs =
     sum_list (map (\<lambda>sub. if isdir E (path_join media_root sub)
                             then int (length (walk E (path_join media_root sub))) else 0) subs)"

definition bounded :: "(call \<Rightarrow> nat) \<Rightarrow> nat \<Rightarrow> state \<Rightarrow> state \<Rightarrow> bool" where
  "bounded w k s s' =
     (scan_potential k s' \<le> scan_potential k s \<and> call_potential w k s' \<le> call_potential w k s)"

text \<open>
  The events that set the mode of the progress bar: determinate with a total, or
  indeterminate.
\<close>

fun is_mode_event :: "event \<Rightarrow> bool" where
  "is_mode_event (Progress_setup n) = True"
| "is_mode_event Progress_indeterminate = True"
| "is_mode_event e = False"

definition mode_events :: "event list \<Rightarrow> event list" where
  "mode_events evs = filter is_mode_event evs"

section \<open>A small world to run the model on\<close>

text \<open>
  One device \<open>dev\<close> with the second of the two known roots and the folder \<open>I\<close> in it, and
  a local copy \<open>src\<close> of the same tree. The folder lists \<open>a.jpg\<close> and \<open>c.jpg\<close>. By name,
  \<open>a.jpg\<close> was modified inside the requested range and \<open>b.jpg\<close> after it; the time of
  \<open>c.jpg\<close> cannot be read; \<open>d.jpg\<close> is in range and its transfer fails.
\<close>

definition demo_mtime :: "string \<Rightarrow> exn + int" where
  "demo_mtime f =
     (if basename f = ''a.jpg'' then Inr 150
      else if basename f = ''b.jpg'' then Inr 500
      else if basename f = ''d.jpg'' then Inr 160
      else Inl (Exception ''stat failed''))"

definition demo_copy :: "string \<Rightarrow> exn option" where
  "demo_copy f = (if basename f = ''d.jpg'' then Some (Exception ''transfer failed'') else None)"

definition demo_env :: env where
  "demo_env =
     \<lparr>cancel_at = None,
      adb_path_exists = (\<lambda>d p. Inr (p = ''/storage/emulated/0/WhatsApp/Media'' \<or>
                                      p = ''/storage/emulated/0/WhatsApp/Media/I'')),
      adb_count_files = (\<lambda>d p. Inr 2),
      adb_find_files = (\<lambda>d p. Inr [p @ ''/a.jpg'', p @ ''/c.jpg'']),
      adb_stat_mtime = (\<lambda>d f. demo_mtime f),
      adb_run_pull = (\<lambda>d r l. demo_copy r),
      isdir = (\<lambda>p. p = ''src/I''),
      walk = (\<lambda>p. if p = ''src/I'' then [(''src/I'', [''a.jpg'', ''c.jpg''])] else []),
      getmtime = demo_mtime,
      makedirs = (\<lambda>p. None),
      copy2 = (\<lambda>src dst. demo_copy src),
      move = (\<lambda>src dst. demo_copy src),
      relpath = (\<lambda>p start. drop (length start + 1) p),
      strptime = (\<lambda>t. if t = ''1970-01-02'' then Inr 86400000000
                        else if t = ''1970-01-03'' then Inr 172800000000
                        else Inl (ValueError ''time data does not match format'')),
      strftime = (\<lambda>t. ''1970-01-01 00:00:00'')\<rparr>"

definition demo_request :: "string \<Rightarrow> request" where
  "demo_request m =
     \<lparr>src_mode = m, src_value = (if m = ''adb'' then ''dev'' else ''src''), dest_root = ''out'',
      start_dt = 100, end_dt = 200, subfolders = [''I''], mode = ''copy''\<rparr>"

definition demo_state :: state where
  "demo_state =
     \<lparr>scanned = 0, matched = 0, errors = 0, ui_queue = [], dialogs = [], existing = [],
      polls = 0, trace = []\<rparr>"

definition demo_vars :: vars where
  "demo_vars =
     \<lparr>var_source_mode = ''adb'', var_device = ''dev'', var_source_folder = ''src'',
      var_dest = ''out'', var_start = ''1970-01-02'', var_end = ''1970-01-03'',
      var_mode = ''copy'', subfolder_vars = [(''I'', True), (''V'', False)]\<rparr>"

text \<open>The same world with a device bridge that is interrupted at its first call.\<close>

definition demo_fault_env :: env where
  "demo_fault_env = demo_env\<lparr>adb_path_exists := (\<lambda>d p. Inl (BaseException ''interrupted''))\<rparr>"


section \<open>Properties of the destination paths\<close>

lemma splitext_concat: "splitext p = (base, ext) \<Longrightarrow> base @ ext = p"
  by (auto simp: splitext_def Let_def split: if_splits)

lemma dup_loop_first_free:
  "\<exists>k\<ge>i. dup_loop ex base ext i = candidate base ext k \<and> candidate base ext k \<notin> set ex \<and>
     (\<forall>j. i \<le> j \<and> j < k \<longrightarrow> candidate base ext j \<in> set ex)"
proof (induction ex base ext i rule: dup_loop.induct)
  case (1 ex base ext i)
  show ?case
  proof (cases "candidate base ext i \<in> set ex")
    case False
    then have "dup_loop ex base ext i = candidate base ext i"
      by (subst dup_loop.simps) simp
    with False show ?thesis by (intro exI[of _ i]) auto
  next
    case True
    with "1.IH" obtain k where k: "i + 1 \<le> k" "dup_loop ex base ext (i + 1) = candidate base ext k"
      "candidate base ext k \<notin> set ex" "\<forall>j. i + 1 \<le> j \<and> j < k \<longrightarrow> candidate base ext j \<in> set ex"
      by auto
    have below: "\<forall>j. i \<le> j \<and> j < k \<longrightarrow> candidate base ext j \<in> set ex"
    proof (intro allI impI)
      fix j assume "i \<le> j \<and> j < k"
      then show "candidate base ext j \<in> set ex" using True k(4) by (cases "j = i") auto
    qed
    have "dup_loop ex base ext i = candidate base ext k"
      using True k(2) by (subst dup_loop.simps) simp
    with k(1,3) below show ?thesis by (intro exI[of _ k]) auto
  qed
qed

lemma unique_destination_path_not_existing: "unique_destination_path ex p \<notin> set ex"
proof (cases "p \<in> set ex")
  case False
  then show ?thesis by (simp add: unique_destination_path_def)
next
  case True
  obtain base ext where sp: "splitext p = (base, ext)" by (cases "splitext p")
  from dup_loop_first_free[of 1 ex base ext] True sp show ?thesis
    by (auto simp: unique_destination_path_def)
qed

lemma unique_destination_path_first:
  assumes sp: "splitext p = (base, ext)" and mem: "p \<in> set ex"
  shows "\<exists>i\<ge>1. unique_destination_path ex p = candidate base ext i \<and>
           candidate base ext i \<notin> set ex \<and>
           (\<forall>j. 1 \<le> j \<and> j < i \<longrightarrow> candidate base ext j \<in> set ex)"
  using dup_loop_first_free[of 1 ex base ext] sp mem
  by (simp add: unique_destination_path_def)

text \<open>
  Claim C2. For every proposed destination path \<open>p\<close> and every (finite) set of existing
  paths, \<open>unique_destination_path\<close> returns a path that does not exist: \<open>p\<close> itself when
  it is free, otherwise the first free candidate, the duplicate marker and a number counted
  up from 1 put between the two parts \<open>splitext\<close> cuts \<open>p\<close> into. So nothing existing is
  overwritten; and once the first result exists, a second call on the same \<open>p\<close> returns
  a different path that is free as well, with a strictly larger number if \<open>p\<close> existed.
  The function is total, so it returns for every input.
\<close>

theorem unique_destination_path_free:
  assumes sp: "splitext p = (base, ext)"
  shows "base @ ext = p \<and>
     unique_destination_path ex p \<notin> set ex \<and>
     (p \<notin> set ex \<longrightarrow> unique_destination_path ex p = p) \<and>
     (p \<in> set ex \<longrightarrow>
        (\<exists>i\<ge>1. unique_destination_path ex p = candidate base ext i \<and>
           (\<forall>j. 1 \<le> j \<and> j < i \<longrightarrow> candidate base ext j \<in> set ex))) \<and>
     unique_destination_path (unique_destination_path ex p # ex) p \<noteq> unique_destination_path ex p \<and>
     unique_destination_path (unique_destination_path ex p # ex) p \<notin> set ex \<and>
     (p \<in> set ex \<longrightarrow>
        (\<exists>i k. 1 \<le> i \<and> i < k \<and> unique_destination_path ex p = candidate base ext i \<and>
           unique_destination_path (unique_destination_path ex p # ex) p = candidate base ext k))"
proof -
  let ?r = "unique_destination_path ex p"
  let ?r2 = "unique_destination_path (?r # ex) p"
  have c1: "base @ ext = p" using sp by (rule splitext_concat)
  have c2: "?r \<notin> set ex" by (rule unique_destination_path_not_existing)
  have c3: "p \<notin> set ex \<longrightarrow> ?r = p" by (simp add: unique_destination_path_def)
  have c4: "p \<in> set ex \<longrightarrow>
        (\<exists>i\<ge>1. ?r = candidate base ext i \<and>
           (\<forall>j. 1 \<le> j \<and> j < i \<longrightarrow> candidate base ext j \<in> set ex))"
    using unique_destination_path_first[OF sp] by blast
  have n2: "?r2 \<notin> set (?r # ex)" by (rule unique_destination_path_not_existing)
  then have c5: "?r2 \<noteq> ?r" and c6: "?r2 \<notin> set ex" by simp_all
  have c7: "p \<in> set ex \<longrightarrow>
        (\<exists>i k. 1 \<le> i \<and> i < k \<and> ?r = candidate base ext i \<and> ?r2 = candidate base ext k)"
  proof
    assume mem: "p \<in> set ex"
    from unique_destination_path_first[OF sp mem] obtain i where
      i: "1 \<le> i" "?r = candidate base ext i"
         "\<forall>j. 1 \<le> j \<and> j < i \<longrightarrow> candidate base ext j \<in> set ex" by blast
    from mem have mem2: "p \<in> set (?r # ex)" by simp
    from unique_destination_path_first[OF sp mem2] obtain k where
      k: "1 \<le> k" "?r2 = candidate base ext k" "candidate base ext k \<notin> set (?r # ex)" by blast
    have "k \<noteq> i" using k(3) i(2) by auto
    moreover have "\<not> k < i" using k(1,3) i(3) by auto
    ultimately have "i < k" by simp
    with i(1,2) k(2) show "\<exists>i k. 1 \<le> i \<and> i < k \<and> ?r = candidate base ext i \<and> ?r2 = candidate base ext k"
      by blast
  qed
  from c1 c2 c3 c4 c5 c6 c7 show ?thesis by blast
qed

theorem unique_destination_path_free_witness:
  "splitext ''d/a.jpg'' = (''d/a'', ''.jpg'') \<and>
   ''d/a.jpg'' \<in> set [''d/a.jpg'', ''d/a__dup1.jpg''] \<and>
   unique_destination_path [''d/a.jpg'', ''d/a__dup1.jpg''] ''d/a.jpg'' = ''d/a__dup2.jpg'' \<and>
   unique_destination_path [''d/a.jpg'', ''d/a__dup1.jpg''] ''d/a.jpg''
      \<notin> set [''d/a.jpg'', ''d/a__dup1.jpg''] \<and>
   unique_destination_path
      (unique_destination_path [''d/a.jpg'', ''d/a__dup1.jpg''] ''d/a.jpg'' #
         [''d/a.jpg'', ''d/a__dup1.jpg'']) ''d/a.jpg''
      \<noteq> unique_destination_path [''d/a.jpg'', ''d/a__dup1.jpg''] ''d/a.jpg''"
proof -
  have sp: "splitext ''d/a.jpg'' = (''d/a'', ''.jpg'')"
    by (simp add: splitext_def rfind_def)
  have ev: "unique_destination_path [''d/a.jpg'', ''d/a__dup1.jpg''] ''d/a.jpg'' = ''d/a__dup2.jpg''"
    by (simp add: unique_destination_path_def sp dup_loop.simps candidate_def
        str_of_nat.simps digit_char_def)
  from unique_destination_path_free[OF sp, of "[''d/a.jpg'', ''d/a__dup1.jpg'']"] sp ev
  show ?thesis by simp
qed

section \<open>Frame lemmas and the events a step emits\<close>

lemmas demo_defs = demo_env_def demo_request_def demo_state_def demo_mtime_def demo_copy_def
  demo_vars_def

lemmas step_defs = put_def called_def record_error_def count_scanned_def count_matched_def

lemma ensure_dir_frame: "\<exists>ex. snd (ensure_dir E p s) = s\<lparr>existing := ex\<rparr>"
proof (cases "p \<in> set (existing s)")
  case True
  then have "snd (ensure_dir E p s) = s\<lparr>existing := existing s\<rparr>"
    by (simp add: ensure_dir_def)
  then show ?thesis by blast
next
  case False
  show ?thesis
  proof (cases "makedirs E p")
    case None
    with False show ?thesis by (simp add: ensure_dir_def) blast
  next
    case (Some e)
    with False have "snd (ensure_dir E p s) = s\<lparr>existing := existing s\<rparr>"
      by (simp add: ensure_dir_def)
    then show ?thesis by blast
  qed
qed

lemma adb_pull_frame: "\<exists>ex. snd (adb_pull E d r l s) = s\<lparr>existing := ex\<rparr>"
proof -
  obtain x s1 where e: "ensure_dir E (dirname l) s = (x, s1)" by (cases "ensure_dir E (dirname l) s")
  from ensure_dir_frame[of E "dirname l" s] e obtain ex where s1: "s1 = s\<lparr>existing := ex\<rparr>" by auto
  show ?thesis
  proof (cases x)
    case (Some a)
    with e s1 show ?thesis by (simp add: adb_pull_def) blast
  next
    case None
    show ?thesis
    proof (cases "adb_run_pull E d r l")
      case None
      with \<open>x = None\<close> e s1 have "snd (adb_pull E d r l s) = s\<lparr>existing := l # ex\<rparr>"
        by (simp add: adb_pull_def)
      then show ?thesis by blast
    next
      case (Some a)
      with \<open>x = None\<close> e s1 show ?thesis by (simp add: adb_pull_def) blast
    qed
  qed
qed

lemma local_transfer_frame: "\<exists>ex. snd (local_transfer E m src dst s) = s\<lparr>existing := ex\<rparr>"
proof -
  obtain x s1 where e: "ensure_dir E (dirname dst) s = (x, s1)" by (cases "ensure_dir E (dirname dst) s")
  from ensure_dir_frame[of E "dirname dst" s] e obtain ex where s1: "s1 = s\<lparr>existing := ex\<rparr>" by auto
  show ?thesis
  proof (cases x)
    case (Some a)
    with e s1 show ?thesis by (simp add: local_transfer_def) blast
  next
    case None
    note x = this
    show ?thesis
    proof (cases "m = ''copy''")
      case True
      show ?thesis
      proof (cases "copy2 E src dst")
        case None
        with x True e s1 have "snd (local_transfer E m src dst s) = s\<lparr>existing := dst # ex\<rparr>"
          by (simp add: local_transfer_def)
        then show ?thesis by blast
      next
        case (Some a)
        with x True e s1 show ?thesis by (simp add: local_transfer_def) blast
      qed
    next
      case False
      show ?thesis
      proof (cases "move E src dst")
        case None
        with x False e s1 have "snd (local_transfer E m src dst s) = s\<lparr>existing := dst # removeAll src ex\<rparr>"
          by (simp add: local_transfer_def)
        then show ?thesis by blast
      next
        case (Some a)
        with x False e s1 show ?thesis by (simp add: local_transfer_def) blast
      qed
    qed
  qed
qed

lemmas values_defs = scanned_values_def matched_values_def errors_values_def

lemma within_snoc: "within lo hi vs \<Longrightarrow> hi \<le> v \<Longrightarrow> within lo v (vs @ [v])"
  by (auto simp: within_def sorted_append)

lemma within_raise: "within lo hi vs \<Longrightarrow> hi \<le> hi' \<Longrightarrow> within lo hi' vs"
  by (auto simp: within_def)

lemma emits_refl: "emits s s"
  by (simp add: emits_def within_def values_defs)

lemma emits_put_Log: "emits s0 s \<Longrightarrow> emits s0 (put (Log m) s)"
  by (auto simp: emits_def put_def values_defs)

lemma emits_put_setup: "emits s0 s \<Longrightarrow> emits s0 (put (Progress_setup n) s)"
  by (auto simp: emits_def put_def values_defs)

lemma emits_put_tick: "emits s0 s \<Longrightarrow> emits s0 (put (Progress_tick n) s)"
  by (auto simp: emits_def put_def values_defs)

lemma emits_put_indeterminate: "emits s0 s \<Longrightarrow> emits s0 (put Progress_indeterminate s)"
  by (auto simp: emits_def put_def values_defs)

lemma emits_called: "emits s0 s \<Longrightarrow> emits s0 (called c s)"
  by (simp add: emits_def called_def)

lemma emits_existing: "emits s0 s \<Longrightarrow> emits s0 (s\<lparr>existing := ex\<rparr>)"
  by (simp add: emits_def)

lemma emits_polls: "emits s0 s \<Longrightarrow> emits s0 (s\<lparr>polls := n\<rparr>)"
  by (simp add: emits_def)

lemma emits_is_set: "emits s0 s \<Longrightarrow> emits s0 (snd (is_set E s))"
  by (simp add: is_set_def emits_polls)

lemma emits_count_scanned: "emits s0 s \<Longrightarrow> emits s0 (count_scanned s)"
proof -
  assume "emits s0 s"
  then obtain evs where e: "ui_queue s = ui_queue s0 @ evs" "Done \<notin> set evs"
    "within (scanned s0) (scanned s) (scanned_values evs)"
    "within (matched s0) (matched s) (matched_values evs)"
    "within (errors s0) (errors s) (errors_values evs)"
    by (auto simp: emits_def)
  let ?evs = "evs @ [Scanned (scanned s + 1), Progress_tick 1]"
  have "scanned_values ?evs = scanned_values evs @ [scanned s + 1]"
    "matched_values ?evs = matched_values evs" "errors_values ?evs = errors_values evs"
    by (simp_all add: values_defs)
  moreover have "within (scanned s0) (scanned s + 1) (scanned_values evs @ [scanned s + 1])"
    by (rule within_snoc[OF e(3)]) simp
  ultimately show ?thesis using e
    unfolding emits_def by (intro exI[of _ ?evs]) (simp add: count_scanned_def put_def)
qed

lemma emits_count_matched: "emits s0 s \<Longrightarrow> emits s0 (count_matched m s)"
proof -
  assume "emits s0 s"
  then obtain evs where e: "ui_queue s = ui_queue s0 @ evs" "Done \<notin> set evs"
    "within (scanned s0) (scanned s) (scanned_values evs)"
    "within (matched s0) (matched s) (matched_values evs)"
    "within (errors s0) (errors s) (errors_values evs)"
    by (auto simp: emits_def)
  let ?evs = "evs @ [Matched (matched s + 1), Log m]"
  have "matched_values ?evs = matched_values evs @ [matched s + 1]"
    "scanned_values ?evs = scanned_values evs" "errors_values ?evs = errors_values evs"
    by (simp_all add: values_defs)
  moreover have "within (matched s0) (matched s + 1) (matched_values evs @ [matched s + 1])"
    by (rule within_snoc[OF e(4)]) simp
  ultimately show ?thesis using e
    unfolding emits_def by (intro exI[of _ ?evs]) (simp add: count_matched_def put_def)
qed

lemma emits_record_error: "emits s0 s \<Longrightarrow> emits s0 (record_error m s)"
proof -
  assume "emits s0 s"
  then obtain evs where e: "ui_queue s = ui_queue s0 @ evs" "Done \<notin> set evs"
    "within (scanned s0) (scanned s) (scanned_values evs)"
    "within (matched s0) (matched s) (matched_values evs)"
    "within (errors s0) (errors s) (errors_values evs)"
    by (auto simp: emits_def)
  let ?evs = "evs @ [Errors (errors s + 1), Log m]"
  have "errors_values ?evs = errors_values evs @ [errors s + 1]"
    "scanned_values ?evs = scanned_values evs" "matched_values ?evs = matched_values evs"
    by (simp_all add: values_defs)
  moreover have "within (errors s0) (errors s + 1) (errors_values evs @ [errors s + 1])"
    by (rule within_snoc[OF e(5)]) simp
  ultimately show ?thesis using e
    unfolding emits_def by (intro exI[of _ ?evs]) (simp add: record_error_def put_def)
qed

lemma emits_announce_total: "emits s0 s \<Longrightarrow> emits s0 (announce_total n s)"
  by (simp add: announce_total_def emits_put_Log emits_put_setup emits_put_indeterminate)

lemma emits_adb_pull: "emits s0 s \<Longrightarrow> emits s0 (snd (adb_pull E d r l s))"
  using adb_pull_frame[of E d r l s] by (auto simp: emits_existing)

lemma emits_local_transfer: "emits s0 s \<Longrightarrow> emits s0 (snd (local_transfer E m src dst s))"
  using local_transfer_frame[of E m src dst s] by (auto simp: emits_existing)

lemma emits_ensure_dir: "emits s0 s \<Longrightarrow> emits s0 (snd (ensure_dir E p s))"
  using ensure_dir_frame[of E p s] by (auto simp: emits_existing)

lemma emits_fatal_handler: "emits s0 s \<Longrightarrow> emits s0 (snd (fatal_handler w e s))"
  by (simp add: fatal_handler_def emits_record_error)

lemma emits_final_log: "emits s0 s \<Longrightarrow> emits s0 (final_log E m s)"
  using emits_is_set[of s0 s E] by (simp add: final_log_def split: prod.splits) (metis emits_put_Log snd_conv)

lemma emits_adb_process_file: "emits s0 s \<Longrightarrow> emits s0 (snd (adb_process_file E R root f s))"
proof -
  assume a: "emits s0 s"
  let ?s1 = "called (Adb_stat_mtime f) (count_scanned s)"
  have s1: "emits s0 ?s1" using a by (intro emits_called emits_count_scanned)
  have p: "\<And>dst. emits s0 (snd (adb_pull E (src_value R) f dst (called (Adb_pull f dst) ?s1)))"
    by (rule emits_adb_pull, rule emits_called, rule s1)
  show ?thesis
  proof (cases "adb_stat_mtime E (src_value R) f")
    case (Inl e)
    with s1 show ?thesis by (simp add: adb_process_file_def Let_def emits_record_error)
  next
    case (Inr m)
    show ?thesis
    proof (cases "in_range R m")
      case False
      with Inr s1 show ?thesis by (simp add: adb_process_file_def Let_def)
    next
      case True
      define dst where "dst = unique_destination_path (existing ?s1)
        (path_join (dest_root R) (adb_rel_path root f))"
      obtain x s2 where pl: "adb_pull E (src_value R) f dst (called (Adb_pull f dst) ?s1) = (x, s2)"
        by (cases "adb_pull E (src_value R) f dst (called (Adb_pull f dst) ?s1)")
      from p[of dst] pl have "emits s0 s2" by simp
      with Inr True pl show ?thesis
        by (cases x) (simp_all add: adb_process_file_def Let_def dst_def
            emits_record_error emits_count_matched)
    qed
  qed
qed

lemma emits_local_process_file:
  "emits s0 s \<Longrightarrow> emits s0 (snd (local_process_file E R media_root root name s))"
proof -
  assume a: "emits s0 s"
  let ?f = "path_join root name"
  let ?s1 = "called (Getmtime ?f) (count_scanned s)"
  have s1: "emits s0 ?s1" using a by (intro emits_called emits_count_scanned)
  have p: "\<And>dst. emits s0 (snd (local_transfer E (mode R) ?f dst
             (called (Local_transfer (mode R) ?f dst) ?s1)))"
    by (rule emits_local_transfer, rule emits_called, rule s1)
  show ?thesis
  proof (cases "getmtime E ?f")
    case (Inl e)
    with s1 show ?thesis by (simp add: local_process_file_def Let_def emits_record_error)
  next
    case (Inr m)
    show ?thesis
    proof (cases "in_range R m")
      case False
      with Inr s1 show ?thesis by (simp add: local_process_file_def Let_def)
    next
      case True
      define dst where "dst = unique_destination_path (existing ?s1)
        (path_join (dest_root R) (relpath E ?f media_root))"
      obtain x s2 where pl: "local_transfer E (mode R) ?f dst
          (called (Local_transfer (mode R) ?f dst) ?s1) = (x, s2)"
        by (cases "local_transfer E (mode R) ?f dst (called (Local_transfer (mode R) ?f dst) ?s1)")
      from p[of dst] pl have "emits s0 s2" by simp
      with Inr True pl show ?thesis
        by (cases x) (simp_all add: local_process_file_def Let_def dst_def
            emits_record_error emits_count_matched)
    qed
  qed
qed

lemma emits_adb_files_loop:
  "emits s0 s \<Longrightarrow> emits s0 (snd (adb_files_loop E R root files s))"
proof (induction files arbitrary: s)
  case Nil
  then show ?case by simp
next
  case (Cons f rest)
  obtain c s1 where i: "is_set E s = (c, s1)" by (cases "is_set E s")
  with emits_is_set[OF Cons.prems, of E] have s1: "emits s0 s1" by simp
  obtain x s2 where p: "adb_process_file E R root f s1 = (x, s2)"
    by (cases "adb_process_file E R root f s1")
  with emits_adb_process_file[OF s1, of E R root f] have s2: "emits s0 s2" by simp
  from Cons.IH[OF s2] i p s1 s2 show ?case
    by (cases c; cases x) simp_all
qed

lemma emits_local_names_loop:
  "emits s0 s \<Longrightarrow> emits s0 (snd (local_names_loop E R media_root root names s))"
proof (induction names arbitrary: s)
  case Nil
  then show ?case by simp
next
  case (Cons f rest)
  obtain c s1 where i: "is_set E s = (c, s1)" by (cases "is_set E s")
  with emits_is_set[OF Cons.prems, of E] have s1: "emits s0 s1" by simp
  obtain x s2 where p: "local_process_file E R media_root root f s1 = (x, s2)"
    by (cases "local_process_file E R media_root root f s1")
  with emits_local_process_file[OF s1, of E R media_root root f] have s2: "emits s0 s2" by simp
  from Cons.IH[OF s2] i p s1 s2 show ?case
    by (cases c; cases x) simp_all
qed

lemma emits_local_walk_loop:
  "emits s0 s \<Longrightarrow> emits s0 (snd (local_walk_loop E R media_root dirs s))"
proof (induction dirs arbitrary: s)
  case Nil
  then show ?case by simp
next
  case (Cons d rest)
  obtain root files where d: "d = (root, files)" by (cases d)
  obtain c s1 where i: "is_set E s = (c, s1)" by (cases "is_set E s")
  with emits_is_set[OF Cons.prems, of E] have s1: "emits s0 s1" by simp
  obtain x s2 where p: "local_names_loop E R media_root root files s1 = (x, s2)"
    by (cases "local_names_loop E R media_root root files s1")
  with emits_local_names_loop[OF s1, of E R media_root root files] have s2: "emits s0 s2" by simp
  from Cons.IH[OF s2] d i p s1 s2 show ?case
    by (cases c; cases x) simp_all
qed

lemma emits_local_subs_loop:
  "emits s0 s \<Longrightarrow> emits s0 (snd (local_subs_loop E R media_root subs s))"
proof (induction subs arbitrary: s)
  case Nil
  then show ?case by simp
next
  case (Cons sub rest)
  obtain c s1 where i: "is_set E s = (c, s1)" by (cases "is_set E s")
  with emits_is_set[OF Cons.prems, of E] have s1: "emits s0 s1" by simp
  let ?d = "path_join media_root sub"
  obtain x s2 where p: "local_walk_loop E R media_root (walk E ?d) s1 = (x, s2)"
    by (cases "local_walk_loop E R media_root (walk E ?d) s1")
  with emits_local_walk_loop[OF s1, of E R media_root "walk E ?d"] have s2: "emits s0 s2" by simp
  have s3: "emits s0 (put (Log (''Skipping missing folder: '' @ ?d)) s1)"
    using s1 by (rule emits_put_Log)
  from Cons.IH[OF s2] Cons.IH[OF s3] i p s1 s2 show ?case
    by (cases c; cases x; cases "isdir E ?d") (simp_all add: Let_def)
qed

lemma emits_adb_subs_loop:
  "emits s0 s \<Longrightarrow> emits s0 (snd (adb_subs_loop E R root subs s))"
proof (induction subs arbitrary: s)
  case Nil
  then show ?case by simp
next
  case (Cons sub rest)
  obtain c s1 where i: "is_set E s = (c, s1)" by (cases "is_set E s")
  with emits_is_set[OF Cons.prems, of E] have s1: "emits s0 s1" by simp
  let ?d = "root @ ''/'' @ sub"
  let ?s2 = "called (Adb_path_exists ?d) s1"
  let ?s3 = "called (Adb_find_files ?d) ?s2"
  have s2: "emits s0 ?s2" using s1 by (rule emits_called)
  have s3: "emits s0 ?s3" using s2 by (rule emits_called)
  show ?case
  proof (cases c)
    case True
    with i s1 show ?thesis by simp
  next
    case False
    note c = this
    show ?thesis
    proof (cases "adb_path_exists E (src_value R) ?d")
      case (Inl e)
      with c i s2 show ?thesis by (simp add: Let_def)
    next
      case (Inr b)
      show ?thesis
      proof (cases b)
        case False
        have "emits s0 (put (Log (''Skipping missing folder: '' @ ?d)) ?s2)"
          using s2 by (rule emits_put_Log)
        from Cons.IH[OF this] c i Inr False show ?thesis by (simp add: Let_def)
      next
        case True
        note b = this
        show ?thesis
        proof (cases "adb_find_files E (src_value R) ?d")
          case (Inl e)
          have "emits s0 (record_error (error_msg ''ERROR listing files in: '' ?d e) ?s3)"
            using s3 by (rule emits_record_error)
          from Cons.IH[OF this] c i Inr b Inl s3 show ?thesis by (simp add: Let_def)
        next
          case (Inr files)
          obtain x s4 where p: "adb_files_loop E R root files ?s3 = (x, s4)"
            by (cases "adb_files_loop E R root files ?s3")
          with emits_adb_files_loop[OF s3, of E R root files] have s4: "emits s0 s4" by simp
          from Cons.IH[OF s4] c i \<open>adb_path_exists E (src_value R) ?d = Inr b\<close> b Inr p s4
          show ?thesis by (cases x) (simp_all add: Let_def)
        qed
      qed
    qed
  qed
qed

lemma emits_adb_roots_loop:
  "emits s0 s \<Longrightarrow> emits s0 (snd (adb_roots_loop E R roots s))"
proof (induction roots arbitrary: s)
  case Nil
  then show ?case by simp
next
  case (Cons root rest)
  obtain c s1 where i: "is_set E s = (c, s1)" by (cases "is_set E s")
  with emits_is_set[OF Cons.prems, of E] have s1: "emits s0 s1" by simp
  obtain x s2 where p: "adb_subs_loop E R root (subfolders R) s1 = (x, s2)"
    by (cases "adb_subs_loop E R root (subfolders R) s1")
  with emits_adb_subs_loop[OF s1, of E R root "subfolders R"] have s2: "emits s0 s2" by simp
  from Cons.IH[OF s2] i p s1 s2 show ?case
    by (cases c; cases x) simp_all
qed

lemma emits_find_roots_loop:
  "emits s0 s \<Longrightarrow> emits s0 (snd (find_roots_loop E d cs s))"
proof (induction cs arbitrary: s)
  case Nil
  then show ?case by simp
next
  case (Cons c cs)
  have s1: "emits s0 (called (Adb_path_exists c) s)" using Cons.prems by (rule emits_called)
  from Cons.IH[OF s1] s1 show ?case
    by (auto simp: Let_def split: sum.splits prod.splits)
qed

lemma emits_adb_total_subs:
  "emits s0 s \<Longrightarrow> emits s0 (snd (adb_total_subs E d root subs tot s))"
proof (induction subs arbitrary: s tot)
  case Nil
  then show ?case by simp
next
  case (Cons sub subs)
  let ?d = "root @ ''/'' @ sub"
  have s1: "emits s0 (called (Adb_path_exists ?d) s)" using Cons.prems by (rule emits_called)
  have s2: "emits s0 (called (Adb_count_files ?d) (called (Adb_path_exists ?d) s))"
    using s1 by (rule emits_called)
  from Cons.IH[OF s1] Cons.IH[OF s2] s1 s2 show ?case
    by (simp add: Let_def split: sum.splits bool.splits)
qed

lemma emits_adb_total_roots:
  "emits s0 s \<Longrightarrow> emits s0 (snd (adb_total_roots E d roots subs tot s))"
proof (induction roots arbitrary: s tot)
  case Nil
  then show ?case by simp
next
  case (Cons root roots)
  obtain x s1 where p: "adb_total_subs E d root subs tot s = (x, s1)"
    by (cases "adb_total_subs E d root subs tot s")
  with emits_adb_total_subs[OF Cons.prems, of E d root subs tot] have s1: "emits s0 s1" by simp
  from Cons.IH[OF s1] p s1 show ?case
    by (cases x) simp_all
qed

lemma emits_worker_adb: "emits s (snd (worker_adb E R s))"
proof -
  obtain x s1 where f: "adb_find_whatsapp_media_roots E (src_value R) s = (x, s1)"
    by (cases "adb_find_whatsapp_media_roots E (src_value R) s")
  with emits_find_roots_loop[OF emits_refl, of s E "src_value R" media_root_candidates]
  have s1: "emits s s1" by (simp add: adb_find_whatsapp_media_roots_def)
  show ?thesis
  proof (cases x)
    case (Inl e)
    with f emits_fatal_handler[OF s1] show ?thesis by (simp add: worker_adb_def)
  next
    case (Inr roots)
    note x = this
    show ?thesis
    proof (cases "roots = []")
      case True
      with f x s1 show ?thesis by (simp add: worker_adb_def emits_put_Log)
    next
      case False
      let ?s2 = "put (Log (''Using WhatsApp Media root(s): '' @ join_str '', '' roots)) s1"
      have s2: "emits s ?s2" using s1 by (rule emits_put_Log)
      obtain y s3 where t: "adb_total_roots E (src_value R) roots (subfolders R) 0 ?s2 = (y, s3)"
        by (cases "adb_total_roots E (src_value R) roots (subfolders R) 0 ?s2")
      with emits_adb_total_roots[OF s2, of E "src_value R" roots "subfolders R" 0]
      have s3: "emits s s3" by simp
      show ?thesis
      proof (cases y)
        case (Inl e)
        with f x False t emits_fatal_handler[OF s3] show ?thesis
          by (simp add: worker_adb_def Let_def)
      next
        case (Inr tot)
        obtain z s4 where l: "adb_roots_loop E R roots (announce_total tot s3) = (z, s4)"
          by (cases "adb_roots_loop E R roots (announce_total tot s3)")
        with emits_adb_roots_loop[OF emits_announce_total[OF s3], of E R roots tot]
        have s4: "emits s s4" by simp
        from f x False t Inr l emits_fatal_handler[OF s4] emits_final_log[OF s4] show ?thesis
          by (cases z) (simp_all add: worker_adb_def Let_def)
      qed
    qed
  qed
qed

lemma emits_worker_local: "emits s (snd (worker_local E R s))"
proof -
  let ?mr = "detect_media_root E (src_value R)"
  let ?s1 = "put (Log (''Media root detected: '' @ ?mr)) s"
  let ?tot = "estimate_total_files_local E ?mr (subfolders R)"
  have s1: "emits s (announce_total ?tot ?s1)"
    by (intro emits_announce_total emits_put_Log emits_refl)
  obtain z s2 where l: "local_subs_loop E R ?mr (subfolders R) (announce_total ?tot ?s1) = (z, s2)"
    by (cases "local_subs_loop E R ?mr (subfolders R) (announce_total ?tot ?s1)")
  with emits_local_subs_loop[OF s1, of E R ?mr "subfolders R"] have s2: "emits s s2" by simp
  from l emits_fatal_handler[OF s2] emits_final_log[OF s2] show ?thesis
    by (cases z) (simp_all add: worker_local_def Let_def)
qed

lemma adb_process_file_cases:
  fixes E R root f s
  defines "s1 \<equiv> called (Adb_stat_mtime f) (count_scanned s)"
  defines "rel \<equiv> adb_rel_path root f"
  defines "dst \<equiv> unique_destination_path (existing s) (path_join (dest_root R) rel)"
  shows "(case adb_stat_mtime E (src_value R) f of
      Inl e \<Rightarrow> adb_process_file E R root f s =
                 (if catchable e
                  then (None, record_error (error_msg ''ERROR reading time: '' f e) s1)
                  else (Some e, s1))
    | Inr m \<Rightarrow>
        if \<not> in_range R m then adb_process_file E R root f s = (None, s1)
        else (\<exists>ex x. adb_pull E (src_value R) f dst (called (Adb_pull f dst) s1) =
                  (x, (called (Adb_pull f dst) s1)\<lparr>existing := ex\<rparr>) \<and>
               adb_process_file E R root f s =
                 (case x of
                    None \<Rightarrow> (None, count_matched (exported_msg E rel m)
                                      ((called (Adb_pull f dst) s1)\<lparr>existing := ex\<rparr>))
                  | Some e \<Rightarrow>
                      if catchable e
                      then (None, record_error (error_msg ''ERROR exporting: '' rel e)
                                      ((called (Adb_pull f dst) s1)\<lparr>existing := ex\<rparr>))
                      else (Some e, (called (Adb_pull f dst) s1)\<lparr>existing := ex\<rparr>))))"
proof (cases "adb_stat_mtime E (src_value R) f")
  case (Inl e)
  then show ?thesis by (simp add: adb_process_file_def Let_def s1_def)
next
  case (Inr m)
  show ?thesis
  proof (cases "in_range R m")
    case False
    with Inr show ?thesis by (simp add: adb_process_file_def Let_def s1_def)
  next
    case True
    have ex1: "existing s1 = existing s" by (simp add: s1_def step_defs)
    obtain x s2 where pl: "adb_pull E (src_value R) f dst (called (Adb_pull f dst) s1) = (x, s2)"
      by (cases "adb_pull E (src_value R) f dst (called (Adb_pull f dst) s1)")
    from adb_pull_frame[of E "src_value R" f dst "called (Adb_pull f dst) s1"] pl
    obtain ex where s2: "s2 = (called (Adb_pull f dst) s1)\<lparr>existing := ex\<rparr>" by auto
    have "adb_process_file E R root f s =
                 (case x of
                    None \<Rightarrow> (None, count_matched (exported_msg E rel m) s2)
                  | Some e \<Rightarrow>
                      if catchable e
                      then (None, record_error (error_msg ''ERROR exporting: '' rel e) s2)
                      else (Some e, s2))"
      using Inr True pl ex1
      by (simp add: adb_process_file_def Let_def s1_def[symmetric] rel_def[symmetric] dst_def[symmetric]
          split: option.splits)
    with Inr True pl s2 show ?thesis by auto
  qed
qed


lemma local_process_file_cases:
  fixes E R media_root root name s
  defines "f \<equiv> path_join root name"
  defines "s1 \<equiv> called (Getmtime f) (count_scanned s)"
  defines "rel \<equiv> relpath E f media_root"
  defines "dst \<equiv> unique_destination_path (existing s) (path_join (dest_root R) rel)"
  shows "(case getmtime E f of
      Inl e \<Rightarrow> local_process_file E R media_root root name s =
                 (if catchable e
                  then (None, record_error (error_msg ''ERROR reading time: '' f e) s1)
                  else (Some e, s1))
    | Inr m \<Rightarrow>
        if \<not> in_range R m then local_process_file E R media_root root name s = (None, s1)
        else (\<exists>ex x. local_transfer E (mode R) f dst (called (Local_transfer (mode R) f dst) s1) =
                  (x, (called (Local_transfer (mode R) f dst) s1)\<lparr>existing := ex\<rparr>) \<and>
               local_process_file E R media_root root name s =
                 (case x of
                    None \<Rightarrow> (None, count_matched (exported_msg E rel m)
                                      ((called (Local_transfer (mode R) f dst) s1)\<lparr>existing := ex\<rparr>))
                  | Some e \<Rightarrow>
                      if catchable e
                      then (None, record_error (error_msg ''ERROR exporting: '' rel e)
                                      ((called (Local_transfer (mode R) f dst) s1)\<lparr>existing := ex\<rparr>))
                      else (Some e, (called (Local_transfer (mode R) f dst) s1)\<lparr>existing := ex\<rparr>))))"
proof (cases "getmtime E f")
  case (Inl e)
  then show ?thesis by (simp add: local_process_file_def Let_def s1_def f_def)
next
  case (Inr m)
  show ?thesis
  proof (cases "in_range R m")
    case False
    with Inr show ?thesis by (simp add: local_process_file_def Let_def s1_def f_def)
  next
    case True
    have ex1: "existing s1 = existing s" by (simp add: s1_def step_defs)
    let ?c = "called (Local_transfer (mode R) f dst) s1"
    obtain x s2 where pl: "local_transfer E (mode R) f dst ?c = (x, s2)"
      by (cases "local_transfer E (mode R) f dst ?c")
    from local_transfer_frame[of E "mode R" f dst ?c] pl
    obtain ex where s2: "s2 = ?c\<lparr>existing := ex\<rparr>" by auto
    have "local_process_file E R media_root root name s =
                 (case x of
                    None \<Rightarrow> (None, count_matched (exported_msg E rel m) s2)
                  | Some e \<Rightarrow>
                      if catchable e
                      then (None, record_error (error_msg ''ERROR exporting: '' rel e) s2)
                      else (Some e, s2))"
      using Inr True pl ex1
      by (simp add: local_process_file_def Let_def f_def[symmetric] s1_def[symmetric]
          rel_def[symmetric] dst_def[symmetric] split: option.splits)
    with Inr True pl s2 show ?thesis by auto
  qed
qed

lemma adb_process_file_effect:
  fixes E R root f s
  defines "s' \<equiv> snd (adb_process_file E R root f s)"
  defines "dst \<equiv> unique_destination_path (existing s)
                    (path_join (dest_root R) (adb_rel_path root f))"
  shows "scanned s' = scanned s + 1" and "polls s' = polls s"
    and "trace s' = trace s @ Adb_stat_mtime f #
           (if adb_mtime_in_range E R f then [Adb_pull f dst] else [])"
    and "\<not> adb_mtime_in_range E R f \<Longrightarrow> matched s' = matched s"
  using adb_process_file_cases[where E=E and R=R and root=root and f=f and s=s]
  unfolding s'_def dst_def adb_mtime_in_range_def
  by (auto simp: step_defs split: sum.splits if_splits option.splits)

lemma local_process_file_effect:
  fixes E R media_root root name s
  defines "s' \<equiv> snd (local_process_file E R media_root root name s)"
  defines "f \<equiv> path_join root name"
  defines "dst \<equiv> unique_destination_path (existing s)
                    (path_join (dest_root R) (relpath E f media_root))"
  shows "scanned s' = scanned s + 1" and "polls s' = polls s"
    and "trace s' = trace s @ Getmtime f #
           (if local_mtime_in_range E R f then [Local_transfer (mode R) f dst] else [])"
    and "\<not> local_mtime_in_range E R f \<Longrightarrow> matched s' = matched s"
  using local_process_file_cases[where E=E and R=R and media_root=media_root and root=root and name=name and s=s]
  unfolding s'_def dst_def f_def local_mtime_in_range_def
  by (auto simp: step_defs split: sum.splits if_splits option.splits)

text \<open>The run of the local worker in the small world, evaluated once.\<close>

lemma demo_local_run:
  "worker_dispatch demo_env (demo_request ''local'') demo_state =
   (None,
    \<lparr>scanned = 2, matched = 1, errors = 1,
     ui_queue =
       [Log ''Media root detected: src'', Progress_setup 2,
        Log ''Estimated total files to scan: 2'', Scanned 1,
        Progress_tick 1, Matched 1,
        Log ''Exported: I/a.jpg  (modified: 1970-01-01 00:00:00)'',
        Scanned 2, Progress_tick 1, Errors 1,
        Log ''ERROR reading time: src/I/c.jpg (stat failed)'',
        Log ''Export complete (Local Folder mode).'', Done],
     dialogs = [], existing = [''out/I/a.jpg'', ''out'', ''out/I''],
     polls = 5,
     trace =
       [Getmtime ''src/I/a.jpg'',
        Local_transfer ''copy'' ''src/I/a.jpg'' ''out/I/a.jpg'',
        Getmtime ''src/I/c.jpg'']\<rparr>)"
  by code_simp

section \<open>The date filter decides the transfer\<close>

lemma is_set_frame:
  "snd (is_set E s) = s\<lparr>polls := polls s + 1\<rparr>"
  by (simp add: is_set_def)

lemma adb_files_loop_transfers:
  "\<exists>n\<le>length files.
      scanned (snd (adb_files_loop E R root files s)) = scanned s + int n \<and>
      transfer_sources (snd (adb_files_loop E R root files s)) =
        transfer_sources s @ filter (adb_mtime_in_range E R) (take n files)"
proof (induction files arbitrary: s)
  case Nil
  then show ?case by simp
next
  case (Cons f rest)
  obtain c s1 where i: "is_set E s = (c, s1)" by (cases "is_set E s")
  with is_set_frame[of E s] have s1: "s1 = s\<lparr>polls := polls s + 1\<rparr>" by simp
  show ?case
  proof (cases c)
    case True
    with i s1 have "snd (adb_files_loop E R root (f # rest) s) = s\<lparr>polls := polls s + 1\<rparr>"
      by simp
    then show ?thesis by (intro exI[of _ 0]) (simp add: transfer_sources_def)
  next
    case False
    obtain x s2 where p: "adb_process_file E R root f s1 = (x, s2)"
      by (cases "adb_process_file E R root f s1")
    from adb_process_file_effect(1,3)[where E=E and R=R and root=root and f=f and s=s1] p s1
    have sc: "scanned s2 = scanned s + 1"
      and ts: "transfer_sources s2 = transfer_sources s @ filter (adb_mtime_in_range E R) [f]"
      by (simp_all add: transfer_sources_def transfer_calls_def)
    show ?thesis
    proof (cases x)
      case (Some e)
      with False i p have "snd (adb_files_loop E R root (f # rest) s) = s2" by simp
      with sc ts show ?thesis by (intro exI[of _ 1]) simp
    next
      case None
      with False i p have eq: "adb_files_loop E R root (f # rest) s = adb_files_loop E R root rest s2"
        by simp
      from Cons.IH[of s2] obtain n where n: "n \<le> length rest"
        "scanned (snd (adb_files_loop E R root rest s2)) = scanned s2 + int n"
        "transfer_sources (snd (adb_files_loop E R root rest s2)) =
           transfer_sources s2 @ filter (adb_mtime_in_range E R) (take n rest)" by blast
      with eq sc ts show ?thesis by (intro exI[of _ "Suc n"]) simp
    qed
  qed
qed

lemma local_names_loop_transfers:
  "\<exists>n\<le>length names.
      scanned (snd (local_names_loop E R media_root root names s)) = scanned s + int n \<and>
      transfer_sources (snd (local_names_loop E R media_root root names s)) =
        transfer_sources s @
          filter (local_mtime_in_range E R) (map (path_join root) (take n names))"
proof (induction names arbitrary: s)
  case Nil
  then show ?case by simp
next
  case (Cons f rest)
  obtain c s1 where i: "is_set E s = (c, s1)" by (cases "is_set E s")
  with is_set_frame[of E s] have s1: "s1 = s\<lparr>polls := polls s + 1\<rparr>" by simp
  show ?case
  proof (cases c)
    case True
    with i s1 have "snd (local_names_loop E R media_root root (f # rest) s) = s\<lparr>polls := polls s + 1\<rparr>"
      by simp
    then show ?thesis by (intro exI[of _ 0]) (simp add: transfer_sources_def)
  next
    case False
    obtain x s2 where p: "local_process_file E R media_root root f s1 = (x, s2)"
      by (cases "local_process_file E R media_root root f s1")
    from local_process_file_effect(1,3)[where E=E and R=R and media_root=media_root and root=root and name=f and s=s1] p s1
    have sc: "scanned s2 = scanned s + 1"
      and ts: "transfer_sources s2 =
                 transfer_sources s @ filter (local_mtime_in_range E R) [path_join root f]"
      by (simp_all add: transfer_sources_def transfer_calls_def)
    show ?thesis
    proof (cases x)
      case (Some e)
      with False i p have "snd (local_names_loop E R media_root root (f # rest) s) = s2" by simp
      with sc ts show ?thesis by (intro exI[of _ 1]) simp
    next
      case None
      with False i p have eq: "local_names_loop E R media_root root (f # rest) s =
          local_names_loop E R media_root root rest s2"
        by simp
      from Cons.IH[of s2] obtain n where n: "n \<le> length rest"
        "scanned (snd (local_names_loop E R media_root root rest s2)) = scanned s2 + int n"
        "transfer_sources (snd (local_names_loop E R media_root root rest s2)) =
           transfer_sources s2 @
             filter (local_mtime_in_range E R) (map (path_join root) (take n rest))" by blast
      with eq sc ts show ?thesis by (intro exI[of _ "Suc n"]) simp
    qed
  qed
qed

text \<open>
  Claim C1. For every scanned file whose modification time resolves, the transfer step
  (\<open>adb_pull\<close> on the device, the copy or move on the host) is entered if and only if the
  time lies in the inclusive range from \<open>start_dt\<close> to \<open>end_dt\<close>: outside the range the
  call log gains no transfer and the exported count stays; inside the range it gains
  exactly one transfer, for this file and a collision-free destination. Over a whole
  folder, in both modes, the files scanned are a leading part of the listing, and the
  transfers entered are exactly those of its files whose time resolved and is in range,
  one each and in order.
\<close>

theorem transfer_iff_mtime_in_range:
  "(adb_stat_mtime E (src_value R) f = Inr m \<longrightarrow>
      (if start_dt R \<le> m \<and> m \<le> end_dt R
       then transfer_calls (trace (snd (adb_process_file E R root f s))) =
              transfer_calls (trace s) @
                [Adb_pull f (unique_destination_path (existing s)
                               (path_join (dest_root R) (adb_rel_path root f)))]
       else transfer_calls (trace (snd (adb_process_file E R root f s))) = transfer_calls (trace s) \<and>
            matched (snd (adb_process_file E R root f s)) = matched s)) \<and>
   (getmtime E (path_join dir name) = Inr m \<longrightarrow>
      (if start_dt R \<le> m \<and> m \<le> end_dt R
       then transfer_calls (trace (snd (local_process_file E R media_root dir name s))) =
              transfer_calls (trace s) @
                [Local_transfer (mode R) (path_join dir name)
                   (unique_destination_path (existing s)
                      (path_join (dest_root R) (relpath E (path_join dir name) media_root)))]
       else transfer_calls (trace (snd (local_process_file E R media_root dir name s))) =
              transfer_calls (trace s) \<and>
            matched (snd (local_process_file E R media_root dir name s)) = matched s)) \<and>
   (\<exists>n\<le>length files.
      scanned (snd (adb_files_loop E R root files s)) = scanned s + int n \<and>
      transfer_sources (snd (adb_files_loop E R root files s)) =
        transfer_sources s @ filter (adb_mtime_in_range E R) (take n files)) \<and>
   (\<exists>n\<le>length names.
      scanned (snd (local_names_loop E R media_root dir names s)) = scanned s + int n \<and>
      transfer_sources (snd (local_names_loop E R media_root dir names s)) =
        transfer_sources s @
          filter (local_mtime_in_range E R) (map (path_join dir) (take n names)))"
proof -
  have a: "adb_stat_mtime E (src_value R) f = Inr m \<longrightarrow>
      (if start_dt R \<le> m \<and> m \<le> end_dt R
       then transfer_calls (trace (snd (adb_process_file E R root f s))) =
              transfer_calls (trace s) @
                [Adb_pull f (unique_destination_path (existing s)
                               (path_join (dest_root R) (adb_rel_path root f)))]
       else transfer_calls (trace (snd (adb_process_file E R root f s))) = transfer_calls (trace s) \<and>
            matched (snd (adb_process_file E R root f s)) = matched s)"
    using adb_process_file_effect(3,4)[where E=E and R=R and root=root and f=f and s=s]
    by (simp add: adb_mtime_in_range_def in_range_def transfer_calls_def)
  have b: "getmtime E (path_join dir name) = Inr m \<longrightarrow>
      (if start_dt R \<le> m \<and> m \<le> end_dt R
       then transfer_calls (trace (snd (local_process_file E R media_root dir name s))) =
              transfer_calls (trace s) @
                [Local_transfer (mode R) (path_join dir name)
                   (unique_destination_path (existing s)
                      (path_join (dest_root R) (relpath E (path_join dir name) media_root)))]
       else transfer_calls (trace (snd (local_process_file E R media_root dir name s))) =
              transfer_calls (trace s) \<and>
            matched (snd (local_process_file E R media_root dir name s)) = matched s)"
    using local_process_file_effect(3,4)[where E=E and R=R and media_root=media_root and root=dir and name=name and s=s]
    by (simp add: local_mtime_in_range_def in_range_def transfer_calls_def)
  from a b adb_files_loop_transfers[of files E R root s]
    local_names_loop_transfers[of names E R media_root dir s]
  show ?thesis by blast
qed

theorem transfer_iff_mtime_in_range_witness:
  "adb_stat_mtime demo_env (src_value (demo_request ''adb'')) ''/r/I/a.jpg'' = Inr 150 \<and>
   start_dt (demo_request ''adb'') \<le> 150 \<and> 150 \<le> end_dt (demo_request ''adb'') \<and>
   transfer_calls (trace (snd (adb_process_file demo_env (demo_request ''adb'') ''/r''
      ''/r/I/a.jpg'' demo_state))) = [Adb_pull ''/r/I/a.jpg'' ''out/I/a.jpg''] \<and>
   getmtime demo_env (path_join ''src/I'' ''b.jpg'') = Inr 500 \<and>
   \<not> 500 \<le> end_dt (demo_request ''local'') \<and>
   transfer_calls (trace (snd (local_process_file demo_env (demo_request ''local'') ''src''
      ''src/I'' ''b.jpg'' demo_state))) = [] \<and>
   matched (snd (local_process_file demo_env (demo_request ''local'') ''src''
      ''src/I'' ''b.jpg'' demo_state)) = 0"
proof -
  have h1: "adb_stat_mtime demo_env (src_value (demo_request ''adb'')) ''/r/I/a.jpg'' = Inr 150"
    by code_simp
  have h2: "getmtime demo_env (path_join ''src/I'' ''b.jpg'') = Inr 500"
    by code_simp
  have d: "unique_destination_path (existing demo_state)
      (path_join (dest_root (demo_request ''adb'')) (adb_rel_path ''/r'' ''/r/I/a.jpg'')) = ''out/I/a.jpg''"
    by code_simp
  have r: "start_dt (demo_request ''adb'') = 100" "end_dt (demo_request ''adb'') = 200"
    "end_dt (demo_request ''local'') = 200" "start_dt (demo_request ''local'') = 100"
    "trace demo_state = []" "matched demo_state = 0"
    by (simp_all add: demo_request_def demo_state_def)
  from transfer_iff_mtime_in_range[of demo_env "demo_request ''adb''" "''/r/I/a.jpg''" 150 "''/r''" demo_state]
    transfer_iff_mtime_in_range[of demo_env "demo_request ''local''" _ 500 _ demo_state "''src/I''" "''b.jpg''" "''src''"]
    h1 h2 d r
  show ?thesis by (simp add: transfer_calls_def)
qed

section \<open>The events of a run\<close>

lemma emitted_append: "emits s s' \<Longrightarrow> ui_queue s' = ui_queue s @ emitted s s'"
  by (auto simp: emits_def emitted_def)

lemma emits_worker: "emits s (snd (if src_mode R = ''adb'' then worker_adb E R s else worker_local E R s))"
  by (simp add: emits_worker_adb emits_worker_local)

text \<open>
  Claim C3. For every run that \<open>_worker_dispatch\<close> carries out, on the device or on a
  local folder, whatever the environment answers and whether the worker returns (complete,
  cancelled or fatal) or lets an exception through, the queue grows by the events of the
  worker followed by \<open>Done\<close>: \<open>Done\<close> is put exactly once, and it is the last event.
\<close>

theorem done_exactly_once_and_last:
  "\<exists>evs. ui_queue (snd (worker_dispatch E R s)) = ui_queue s @ evs @ [Done] \<and> Done \<notin> set evs"
proof -
  obtain r s1 where w: "(if src_mode R = ''adb'' then worker_adb E R s else worker_local E R s) = (r, s1)"
    by (cases "if src_mode R = ''adb'' then worker_adb E R s else worker_local E R s")
  with emits_worker[of s R E] have "emits s s1" by simp
  then obtain evs where "ui_queue s1 = ui_queue s @ evs" "Done \<notin> set evs"
    by (auto simp: emits_def)
  moreover from w have "snd (worker_dispatch E R s) = put Done s1"
    by (simp add: worker_dispatch_def)
  ultimately show ?thesis by (intro exI[of _ evs]) (simp add: put_def)
qed

theorem done_exactly_once_and_last_witness:
  "fst (worker_dispatch demo_fault_env (demo_request ''adb'') demo_state) =
     Some (BaseException ''interrupted'') \<and>
   ui_queue (snd (worker_dispatch demo_fault_env (demo_request ''adb'') demo_state)) = [Done] \<and>
   (\<exists>evs. ui_queue (snd (worker_dispatch demo_fault_env (demo_request ''adb'') demo_state)) =
      ui_queue demo_state @ evs @ [Done] \<and> Done \<notin> set evs)"
proof -
  have "fst (worker_dispatch demo_fault_env (demo_request ''adb'') demo_state) =
     Some (BaseException ''interrupted'')"
    by code_simp
  moreover have "ui_queue (snd (worker_dispatch demo_fault_env (demo_request ''adb'') demo_state)) = [Done]"
    by code_simp
  ultimately show ?thesis
    using done_exactly_once_and_last[of demo_fault_env "demo_request ''adb''" demo_state]
    by simp
qed

text \<open>
  Claim C9. Within one run, the values carried by the scanned, the exported and the error
  count events are each non-decreasing in the order in which they were put on the queue.
\<close>

theorem counter_events_never_decrease:
  "ui_queue (snd (worker_dispatch E R s)) = ui_queue s @ emitted s (snd (worker_dispatch E R s)) \<and>
   sorted (scanned_values (emitted s (snd (worker_dispatch E R s)))) \<and>
   sorted (matched_values (emitted s (snd (worker_dispatch E R s)))) \<and>
   sorted (errors_values (emitted s (snd (worker_dispatch E R s))))"
proof -
  obtain r s1 where w: "(if src_mode R = ''adb'' then worker_adb E R s else worker_local E R s) = (r, s1)"
    by (cases "if src_mode R = ''adb'' then worker_adb E R s else worker_local E R s")
  with emits_worker[of s R E] have "emits s s1" by simp
  then obtain evs where e: "ui_queue s1 = ui_queue s @ evs"
    "within (scanned s) (scanned s1) (scanned_values evs)"
    "within (matched s) (matched s1) (matched_values evs)"
    "within (errors s) (errors s1) (errors_values evs)"
    by (auto simp: emits_def)
  from w have d: "snd (worker_dispatch E R s) = put Done s1"
    by (simp add: worker_dispatch_def)
  have em: "emitted s (put Done s1) = evs @ [Done]"
    using e(1) by (simp add: emitted_def put_def)
  have v: "scanned_values (evs @ [Done]) = scanned_values evs"
    "matched_values (evs @ [Done]) = matched_values evs"
    "errors_values (evs @ [Done]) = errors_values evs"
    by (simp_all add: values_defs)
  from e(2,3,4) have "sorted (scanned_values evs)" "sorted (matched_values evs)"
    "sorted (errors_values evs)" by (simp_all add: within_def)
  with d em v e(1) show ?thesis by (simp add: put_def)
qed

theorem counter_events_never_decrease_witness:
  "scanned_values (emitted demo_state (snd (worker_dispatch demo_env (demo_request ''local'') demo_state)))
     = [1, 2] \<and>
   matched_values (emitted demo_state (snd (worker_dispatch demo_env (demo_request ''local'') demo_state)))
     = [1] \<and>
   errors_values (emitted demo_state (snd (worker_dispatch demo_env (demo_request ''local'') demo_state)))
     = [1] \<and>
   sorted (scanned_values (emitted demo_state (snd (worker_dispatch demo_env (demo_request ''local'') demo_state))))"
proof -
  have "emitted demo_state (snd (worker_dispatch demo_env (demo_request ''local'') demo_state)) =
      ui_queue (snd (worker_dispatch demo_env (demo_request ''local'') demo_state))"
    by (simp add: emitted_def demo_state_def)
  then show ?thesis
    using counter_events_never_decrease[of demo_env "demo_request ''local''" demo_state]
    by (simp add: demo_local_run values_defs)
qed

section \<open>Cancellation: a latch that is set stops every loop\<close>

lemma is_set_when_set:
  "cancel_at E = Some k \<Longrightarrow> k \<le> polls s \<Longrightarrow> is_set E s = (True, s\<lparr>polls := polls s + 1\<rparr>)"
  by (simp add: is_set_def)


lemma adb_files_loop_skipped:
  "cancel_at E = Some k \<Longrightarrow> k \<le> polls s \<Longrightarrow>
   adb_files_loop E R root files s = (None, if files = [] then s else s\<lparr>polls := polls s + 1\<rparr>)"
  by (cases files) (simp_all add: is_set_when_set)

lemma adb_subs_loop_skipped:
  "cancel_at E = Some k \<Longrightarrow> k \<le> polls s \<Longrightarrow>
   adb_subs_loop E R root subs s = (None, if subs = [] then s else s\<lparr>polls := polls s + 1\<rparr>)"
  by (cases subs) (simp_all add: is_set_when_set)

lemma adb_roots_loop_skipped:
  "cancel_at E = Some k \<Longrightarrow> k \<le> polls s \<Longrightarrow>
   adb_roots_loop E R roots s = (None, if roots = [] then s else s\<lparr>polls := polls s + 1\<rparr>)"
  by (cases roots) (simp_all add: is_set_when_set)

lemma local_names_loop_skipped:
  "cancel_at E = Some k \<Longrightarrow> k \<le> polls s \<Longrightarrow>
   local_names_loop E R media_root dir names s =
     (None, if names = [] then s else s\<lparr>polls := polls s + 1\<rparr>)"
  by (cases names) (simp_all add: is_set_when_set)

lemma local_walk_loop_skipped:
  "cancel_at E = Some k \<Longrightarrow> k \<le> polls s \<Longrightarrow>
   local_walk_loop E R media_root dirs s =
     (None, if dirs = [] then s else s\<lparr>polls := polls s + 1\<rparr>)"
proof (cases dirs)
  case Nil
  then show ?thesis by simp
next
  case (Cons d rest)
  assume "cancel_at E = Some k" "k \<le> polls s"
  with Cons show ?thesis by (cases d) (simp add: is_set_when_set)
qed

lemma local_subs_loop_skipped:
  "cancel_at E = Some k \<Longrightarrow> k \<le> polls s \<Longrightarrow>
   local_subs_loop E R media_root subs s =
     (None, if subs = [] then s else s\<lparr>polls := polls s + 1\<rparr>)"
  by (cases subs) (simp_all add: is_set_when_set)

lemma adb_files_loop_in_flight:
  assumes c: "cancel_at E = Some k" and k: "k \<le> polls s + 1"
  shows "scanned (snd (adb_files_loop E R root files s)) \<le> scanned s + 1"
proof (cases files)
  case Nil
  then show ?thesis by simp
next
  case (Cons f rest)
  show ?thesis
  proof (cases "k \<le> polls s")
    case True
    from adb_files_loop_skipped[OF c True, of R root files] show ?thesis by simp
  next
    case False
    with c have i: "is_set E s = (False, s\<lparr>polls := polls s + 1\<rparr>)" by (simp add: is_set_def)
    let ?s1 = "s\<lparr>polls := polls s + 1\<rparr>"
    obtain x s2 where p: "adb_process_file E R root f ?s1 = (x, s2)"
      by (cases "adb_process_file E R root f ?s1")
    from adb_process_file_effect(1,2)[where E=E and R=R and root=root and f=f and s="?s1"] p
    have sc: "scanned s2 = scanned s + 1" and po: "polls s2 = polls s + 1" by simp_all
    from k po have k2: "k \<le> polls s2" by simp
    from adb_files_loop_skipped[OF c k2, of R root rest] Cons i p sc show ?thesis
      by (cases x) simp_all
  qed
qed

lemma local_names_loop_in_flight:
  assumes c: "cancel_at E = Some k" and k: "k \<le> polls s + 1"
  shows "scanned (snd (local_names_loop E R media_root dir names s)) \<le> scanned s + 1"
proof (cases names)
  case Nil
  then show ?thesis by simp
next
  case (Cons f rest)
  show ?thesis
  proof (cases "k \<le> polls s")
    case True
    from local_names_loop_skipped[OF c True, of R media_root dir names] show ?thesis by simp
  next
    case False
    with c have i: "is_set E s = (False, s\<lparr>polls := polls s + 1\<rparr>)" by (simp add: is_set_def)
    let ?s1 = "s\<lparr>polls := polls s + 1\<rparr>"
    obtain x s2 where p: "local_process_file E R media_root dir f ?s1 = (x, s2)"
      by (cases "local_process_file E R media_root dir f ?s1")
    from local_process_file_effect(1,2)[where E=E and R=R and media_root=media_root
        and root=dir and name=f and s="?s1"] p
    have sc: "scanned s2 = scanned s + 1" and po: "polls s2 = polls s + 1" by simp_all
    from k po have k2: "k \<le> polls s2" by simp
    from local_names_loop_skipped[OF c k2, of R media_root dir rest] Cons i p sc show ?thesis
      by (cases x) simp_all
  qed
qed

section \<open>Failures on one item\<close>


lemma ensure_dir_existing_cong:
  "existing s = existing s' \<Longrightarrow> existing (snd (ensure_dir E p s)) = existing (snd (ensure_dir E p s'))"
  by (simp add: ensure_dir_def split: option.splits)



lemma adb_process_file_in_range:
  assumes "adb_stat_mtime E (src_value R) f = Inr m" and "in_range R m"
  shows "adb_process_file E R root f s =
     (case adb_pull E (src_value R) f
             (unique_destination_path (existing s) (path_join (dest_root R) (adb_rel_path root f)))
             (called (Adb_pull f (unique_destination_path (existing s)
                                   (path_join (dest_root R) (adb_rel_path root f))))
                (called (Adb_stat_mtime f) (count_scanned s))) of
        (None, s2) \<Rightarrow> (None, count_matched (exported_msg E (adb_rel_path root f) m) s2)
      | (Some e, s2) \<Rightarrow>
          if catchable e
          then (None, record_error (error_msg ''ERROR exporting: '' (adb_rel_path root f) e) s2)
          else (Some e, s2))"
proof -
  have "existing (called (Adb_stat_mtime f) (count_scanned s)) = existing s"
    by (simp add: step_defs)
  with assms show ?thesis by (simp add: adb_process_file_def Let_def)
qed








lemma adb_process_file_escape:
  "fst (adb_process_file E R root f s) = Some e \<Longrightarrow> \<not> catchable e"
  using adb_process_file_cases[where E=E and R=R and root=root and f=f and s=s]
  by (auto split: sum.splits if_splits option.splits)

lemma local_process_file_escape:
  "fst (local_process_file E R media_root dir name s) = Some e \<Longrightarrow> \<not> catchable e"
  using local_process_file_cases[where E=E and R=R and media_root=media_root and root=dir
      and name=name and s=s]
  by (auto split: sum.splits if_splits option.splits)

lemma adb_files_loop_escape:
  "fst (adb_files_loop E R root files s) = Some e \<Longrightarrow> \<not> catchable e"
proof (induction files arbitrary: s)
  case Nil
  then show ?case by simp
next
  case (Cons f rest)
  obtain c s1 where i: "is_set E s = (c, s1)" by (cases "is_set E s")
  obtain x s2 where p: "adb_process_file E R root f s1 = (x, s2)"
    by (cases "adb_process_file E R root f s1")
  show ?case
  proof (cases c)
    case True
    with Cons.prems i show ?thesis by simp
  next
    case False
    show ?thesis
    proof (cases x)
      case None
      with False i p Cons.prems have "fst (adb_files_loop E R root rest s2) = Some e" by simp
      then show ?thesis by (rule Cons.IH)
    next
      case (Some e')
      with False i p Cons.prems have "e' = e" by simp
      with Some p adb_process_file_escape[of E R root f s1 e] show ?thesis by simp
    qed
  qed
qed

lemma local_names_loop_escape:
  "fst (local_names_loop E R media_root dir names s) = Some e \<Longrightarrow> \<not> catchable e"
proof (induction names arbitrary: s)
  case Nil
  then show ?case by simp
next
  case (Cons f rest)
  obtain c s1 where i: "is_set E s = (c, s1)" by (cases "is_set E s")
  obtain x s2 where p: "local_process_file E R media_root dir f s1 = (x, s2)"
    by (cases "local_process_file E R media_root dir f s1")
  show ?case
  proof (cases c)
    case True
    with Cons.prems i show ?thesis by simp
  next
    case False
    show ?thesis
    proof (cases x)
      case None
      with False i p Cons.prems have "fst (local_names_loop E R media_root dir rest s2) = Some e"
        by simp
      then show ?thesis by (rule Cons.IH)
    next
      case (Some e')
      with False i p Cons.prems have "e' = e" by simp
      with Some p local_process_file_escape[of E R media_root dir f s1 e] show ?thesis by simp
    qed
  qed
qed

lemma local_walk_loop_escape:
  "fst (local_walk_loop E R media_root dirs s) = Some e \<Longrightarrow> \<not> catchable e"
proof (induction dirs arbitrary: s)
  case Nil
  then show ?case by simp
next
  case (Cons d rest)
  obtain dir files where d: "d = (dir, files)" by (cases d)
  obtain c s1 where i: "is_set E s = (c, s1)" by (cases "is_set E s")
  obtain x s2 where p: "local_names_loop E R media_root dir files s1 = (x, s2)"
    by (cases "local_names_loop E R media_root dir files s1")
  show ?case
  proof (cases c)
    case True
    with Cons.prems i d show ?thesis by simp
  next
    case False
    show ?thesis
    proof (cases x)
      case None
      with False i p d Cons.prems have "fst (local_walk_loop E R media_root rest s2) = Some e"
        by simp
      then show ?thesis by (rule Cons.IH)
    next
      case (Some e')
      with False i p d Cons.prems have "e' = e" by simp
      with Some p local_names_loop_escape[of E R media_root dir files s1 e] show ?thesis by simp
    qed
  qed
qed

lemma local_subs_loop_escape:
  "fst (local_subs_loop E R media_root subs s) = Some e \<Longrightarrow> \<not> catchable e"
proof (induction subs arbitrary: s)
  case Nil
  then show ?case by simp
next
  case (Cons sub rest)
  obtain c s1 where i: "is_set E s = (c, s1)" by (cases "is_set E s")
  let ?d = "path_join media_root sub"
  obtain x s2 where p: "local_walk_loop E R media_root (walk E ?d) s1 = (x, s2)"
    by (cases "local_walk_loop E R media_root (walk E ?d) s1")
  show ?case
  proof (cases c)
    case True
    with Cons.prems i show ?thesis by simp
  next
    case False
    note c = this
    show ?thesis
    proof (cases "isdir E ?d")
      case False
      with c i Cons.prems
      have "fst (local_subs_loop E R media_root rest
                   (put (Log (''Skipping missing folder: '' @ ?d)) s1)) = Some e"
        by (simp add: Let_def)
      then show ?thesis by (rule Cons.IH)
    next
      case True
      show ?thesis
      proof (cases x)
        case None
        with c True i p Cons.prems have "fst (local_subs_loop E R media_root rest s2) = Some e"
          by (simp add: Let_def)
        then show ?thesis by (rule Cons.IH)
      next
        case (Some e')
        with c True i p Cons.prems have "e' = e" by (simp add: Let_def)
        with Some p local_walk_loop_escape[of E R media_root "walk E ?d" s1 e] show ?thesis by simp
      qed
    qed
  qed
qed



section \<open>The scanned count\<close>

lemma is_set_never:
  "cancel_at E = None \<Longrightarrow> is_set E s = (False, s\<lparr>polls := polls s + 1\<rparr>)"
  by (simp add: is_set_def)

lemma adb_files_loop_count:
  assumes c: "cancel_at E = None"
  shows "fst (adb_files_loop E R root files s) = None \<Longrightarrow>
         scanned (snd (adb_files_loop E R root files s)) = scanned s + int (length files)"
proof (induction files arbitrary: s)
  case Nil
  then show ?case by simp
next
  case (Cons f rest)
  let ?s1 = "s\<lparr>polls := polls s + 1\<rparr>"
  obtain x s2 where p: "adb_process_file E R root f ?s1 = (x, s2)"
    by (cases "adb_process_file E R root f ?s1")
  from adb_process_file_effect(1)[where E=E and R=R and root=root and f=f and s="?s1"] p
  have sc: "scanned s2 = scanned s + 1" by simp
  show ?case
  proof (cases x)
    case (Some e)
    with is_set_never[OF c, of s] p Cons.prems show ?thesis by simp
  next
    case None
    with is_set_never[OF c, of s] p
    have eq: "adb_files_loop E R root (f # rest) s = adb_files_loop E R root rest s2" by simp
    with Cons.prems have "fst (adb_files_loop E R root rest s2) = None" by simp
    from Cons.IH[OF this] eq sc show ?thesis by simp
  qed
qed

lemma adb_subs_loop_count:
  assumes c: "cancel_at E = None"
  shows "fst (adb_subs_loop E R root subs s) = None \<Longrightarrow>
         scanned (snd (adb_subs_loop E R root subs s)) =
           scanned s + sum_list (map (\<lambda>sub. adb_listed E (src_value R) (root @ ''/'' @ sub)) subs)"
proof (induction subs arbitrary: s)
  case Nil
  then show ?case by simp
next
  case (Cons sub rest)
  let ?d = "root @ ''/'' @ sub"
  let ?s1 = "s\<lparr>polls := polls s + 1\<rparr>"
  let ?s2 = "called (Adb_path_exists ?d) ?s1"
  let ?s3 = "called (Adb_find_files ?d) ?s2"
  note i = is_set_never[OF c, of s]
  show ?case
  proof (cases "adb_path_exists E (src_value R) ?d")
    case (Inl e)
    with i Cons.prems show ?thesis by (simp add: Let_def)
  next
    case (Inr b)
    note ex = this
    show ?thesis
    proof (cases b)
      case False
      let ?s' = "put (Log (''Skipping missing folder: '' @ ?d)) ?s2"
      from i ex False have eq: "adb_subs_loop E R root (sub # rest) s = adb_subs_loop E R root rest ?s'"
        by (simp add: Let_def)
      with Cons.prems have "fst (adb_subs_loop E R root rest ?s') = None" by simp
      from Cons.IH[OF this] eq ex False show ?thesis
        by (simp add: adb_listed_def step_defs)
    next
      case True
      note b = this
      show ?thesis
      proof (cases "adb_find_files E (src_value R) ?d")
        case (Inl e)
        show ?thesis
        proof (cases "catchable e")
          case False
          with i ex b Inl Cons.prems show ?thesis by (simp add: Let_def)
        next
          case True
          let ?s' = "record_error (error_msg ''ERROR listing files in: '' ?d e) ?s3"
          from i ex b Inl True
          have eq: "adb_subs_loop E R root (sub # rest) s = adb_subs_loop E R root rest ?s'"
            by (simp add: Let_def)
          with Cons.prems have "fst (adb_subs_loop E R root rest ?s') = None" by simp
          from Cons.IH[OF this] eq ex b Inl show ?thesis
            by (simp add: adb_listed_def step_defs)
        qed
      next
        case (Inr files)
        obtain x s4 where p: "adb_files_loop E R root files ?s3 = (x, s4)"
          by (cases "adb_files_loop E R root files ?s3")
        show ?thesis
        proof (cases x)
          case (Some e)
          with i ex b Inr p Cons.prems show ?thesis by (simp add: Let_def)
        next
          case None
          with adb_files_loop_count[OF c, of R root files ?s3] p
          have sc: "scanned s4 = scanned s + int (length files)" by (simp add: step_defs)
          from i ex b Inr p None
          have eq: "adb_subs_loop E R root (sub # rest) s = adb_subs_loop E R root rest s4"
            by (simp add: Let_def)
          with Cons.prems have "fst (adb_subs_loop E R root rest s4) = None" by simp
          from Cons.IH[OF this] eq ex b Inr sc show ?thesis
            by (simp add: adb_listed_def)
        qed
      qed
    qed
  qed
qed

lemma adb_roots_loop_count:
  assumes c: "cancel_at E = None"
  shows "fst (adb_roots_loop E R roots s) = None \<Longrightarrow>
         scanned (snd (adb_roots_loop E R roots s)) =
           scanned s + adb_enumerated E (src_value R) roots (subfolders R)"
proof (induction roots arbitrary: s)
  case Nil
  then show ?case by (simp add: adb_enumerated_def)
next
  case (Cons root rest)
  let ?s1 = "s\<lparr>polls := polls s + 1\<rparr>"
  note i = is_set_never[OF c, of s]
  obtain x s2 where p: "adb_subs_loop E R root (subfolders R) ?s1 = (x, s2)"
    by (cases "adb_subs_loop E R root (subfolders R) ?s1")
  show ?case
  proof (cases x)
    case (Some e)
    with i p Cons.prems show ?thesis by simp
  next
    case None
    with adb_subs_loop_count[OF c, of R root "subfolders R" ?s1] p
    have sc: "scanned s2 = scanned s +
        sum_list (map (\<lambda>sub. adb_listed E (src_value R) (root @ ''/'' @ sub)) (subfolders R))"
      by simp
    from i p None have eq: "adb_roots_loop E R (root # rest) s = adb_roots_loop E R rest s2" by simp
    with Cons.prems have "fst (adb_roots_loop E R rest s2) = None" by simp
    from Cons.IH[OF this] eq sc show ?thesis by (simp add: adb_enumerated_def)
  qed
qed

lemma local_names_loop_count:
  assumes c: "cancel_at E = None"
  shows "fst (local_names_loop E R media_root dir names s) = None \<Longrightarrow>
         scanned (snd (local_names_loop E R media_root dir names s)) = scanned s + int (length names)"
proof (induction names arbitrary: s)
  case Nil
  then show ?case by simp
next
  case (Cons f rest)
  let ?s1 = "s\<lparr>polls := polls s + 1\<rparr>"
  obtain x s2 where p: "local_process_file E R media_root dir f ?s1 = (x, s2)"
    by (cases "local_process_file E R media_root dir f ?s1")
  from local_process_file_effect(1)[where E=E and R=R and media_root=media_root and root=dir
      and name=f and s="?s1"] p
  have sc: "scanned s2 = scanned s + 1" by simp
  show ?case
  proof (cases x)
    case (Some e)
    with is_set_never[OF c, of s] p Cons.prems show ?thesis by simp
  next
    case None
    with is_set_never[OF c, of s] p
    have eq: "local_names_loop E R media_root dir (f # rest) s =
              local_names_loop E R media_root dir rest s2" by simp
    with Cons.prems have "fst (local_names_loop E R media_root dir rest s2) = None" by simp
    from Cons.IH[OF this] eq sc show ?thesis by simp
  qed
qed

lemma local_walk_loop_count:
  assumes c: "cancel_at E = None"
  shows "fst (local_walk_loop E R media_root dirs s) = None \<Longrightarrow>
         scanned (snd (local_walk_loop E R media_root dirs s)) = scanned s + walk_files dirs"
proof (induction dirs arbitrary: s)
  case Nil
  then show ?case by (simp add: walk_files_def)
next
  case (Cons d rest)
  obtain dir files where d: "d = (dir, files)" by (cases d)
  let ?s1 = "s\<lparr>polls := polls s + 1\<rparr>"
  note i = is_set_never[OF c, of s]
  obtain x s2 where p: "local_names_loop E R media_root dir files ?s1 = (x, s2)"
    by (cases "local_names_loop E R media_root dir files ?s1")
  show ?case
  proof (cases x)
    case (Some e)
    with i p d Cons.prems show ?thesis by simp
  next
    case None
    with local_names_loop_count[OF c, of R media_root dir files ?s1] p
    have sc: "scanned s2 = scanned s + int (length files)" by simp
    from i p d None
    have eq: "local_walk_loop E R media_root (d # rest) s = local_walk_loop E R media_root rest s2"
      by simp
    with Cons.prems have "fst (local_walk_loop E R media_root rest s2) = None" by simp
    from Cons.IH[OF this] eq sc d show ?thesis by (simp add: walk_files_def)
  qed
qed

lemma local_subs_loop_count:
  assumes c: "cancel_at E = None"
  shows "fst (local_subs_loop E R media_root subs s) = None \<Longrightarrow>
         scanned (snd (local_subs_loop E R media_root subs s)) =
           scanned s + local_enumerated E media_root subs"
proof (induction subs arbitrary: s)
  case Nil
  then show ?case by (simp add: local_enumerated_def)
next
  case (Cons sub rest)
  let ?d = "path_join media_root sub"
  let ?s1 = "s\<lparr>polls := polls s + 1\<rparr>"
  note i = is_set_never[OF c, of s]
  show ?case
  proof (cases "isdir E ?d")
    case False
    let ?s' = "put (Log (''Skipping missing folder: '' @ ?d)) ?s1"
    from i False
    have eq: "local_subs_loop E R media_root (sub # rest) s = local_subs_loop E R media_root rest ?s'"
      by (simp add: Let_def)
    with Cons.prems have "fst (local_subs_loop E R media_root rest ?s') = None" by simp
    from Cons.IH[OF this] eq False show ?thesis
      by (simp add: local_enumerated_def step_defs)
  next
    case True
    obtain x s2 where p: "local_walk_loop E R media_root (walk E ?d) ?s1 = (x, s2)"
      by (cases "local_walk_loop E R media_root (walk E ?d) ?s1")
    show ?thesis
    proof (cases x)
      case (Some e)
      with i p True Cons.prems show ?thesis by (simp add: Let_def)
    next
      case None
      with local_walk_loop_count[OF c, of R media_root "walk E ?d" ?s1] p
      have sc: "scanned s2 = scanned s + walk_files (walk E ?d)" by simp
      from i p True None
      have eq: "local_subs_loop E R media_root (sub # rest) s = local_subs_loop E R media_root rest s2"
        by (simp add: Let_def)
      with Cons.prems have "fst (local_subs_loop E R media_root rest s2) = None" by simp
      from Cons.IH[OF this] eq sc True show ?thesis by (simp add: local_enumerated_def)
    qed
  qed
qed

lemma scanned_announce_total [simp]: "scanned (announce_total n s) = scanned s"
  by (simp add: announce_total_def step_defs)

lemma scanned_final_log [simp]: "scanned (final_log E m s) = scanned s"
  by (simp add: final_log_def is_set_def step_defs)

lemma worker_local_count:
  assumes c: "cancel_at E = None" and r: "fst (worker_local E R s) = None"
  shows "scanned (snd (worker_local E R s)) =
           scanned s + local_enumerated E (detect_media_root E (src_value R)) (subfolders R)"
proof -
  let ?mr = "detect_media_root E (src_value R)"
  let ?s1 = "announce_total (estimate_total_files_local E ?mr (subfolders R))
               (put (Log (''Media root detected: '' @ ?mr)) s)"
  obtain x s2 where p: "local_subs_loop E R ?mr (subfolders R) ?s1 = (x, s2)"
    by (cases "local_subs_loop E R ?mr (subfolders R) ?s1")
  show ?thesis
  proof (cases x)
    case (Some e)
    with local_subs_loop_escape[of E R ?mr "subfolders R" ?s1 e] p have "\<not> catchable e" by simp
    with Some p r show ?thesis by (simp add: worker_local_def Let_def fatal_handler_def)
  next
    case None
    with local_subs_loop_count[OF c, of R ?mr "subfolders R" ?s1] p
    have "scanned s2 = scanned s + local_enumerated E ?mr (subfolders R)"
      by (simp add: step_defs)
    with None p show ?thesis by (simp add: worker_local_def Let_def)
  qed
qed

lemma find_roots_loop_answered:
  assumes a: "\<forall>p. \<exists>b. adb_path_exists E device p = Inr b"
  shows "\<exists>s1. find_roots_loop E device cs s =
                (Inr (filter (\<lambda>c. adb_path_exists E device c = Inr True) cs), s1) \<and>
              scanned s1 = scanned s"
proof (induction cs arbitrary: s)
  case Nil
  then show ?case by simp
next
  case (Cons c cs)
  from a obtain b where b: "adb_path_exists E device c = Inr b" by blast
  from Cons.IH[of "called (Adb_path_exists c) s"] obtain s1 where
    s1: "find_roots_loop E device cs (called (Adb_path_exists c) s) =
           (Inr (filter (\<lambda>c. adb_path_exists E device c = Inr True) cs), s1)"
        "scanned s1 = scanned (called (Adb_path_exists c) s)" by blast
  with b show ?case by (simp add: Let_def step_defs)
qed

lemma adb_total_subs_answered:
  assumes a: "\<forall>p. \<exists>b. adb_path_exists E device p = Inr b"
    and n: "\<forall>p. \<exists>k. adb_count_files E device p = Inr k"
  shows "\<exists>t s1. adb_total_subs E device root subs tot s = (Inr t, s1) \<and> scanned s1 = scanned s"
proof (induction subs arbitrary: s tot)
  case Nil
  then show ?case by simp
next
  case (Cons sub rest)
  let ?d = "root @ ''/'' @ sub"
  from a obtain b where b: "adb_path_exists E device ?d = Inr b" by blast
  from n obtain k where k: "adb_count_files E device ?d = Inr k" by blast
  show ?case
  proof (cases b)
    case False
    from Cons.IH[of tot "called (Adb_path_exists ?d) s"] b False show ?thesis
      by (simp add: Let_def step_defs)
  next
    case True
    from Cons.IH[of "tot + k" "called (Adb_count_files ?d) (called (Adb_path_exists ?d) s)"]
      b True k show ?thesis
      by (simp add: Let_def step_defs)
  qed
qed

lemma adb_total_roots_answered:
  assumes a: "\<forall>p. \<exists>b. adb_path_exists E device p = Inr b"
    and n: "\<forall>p. \<exists>k. adb_count_files E device p = Inr k"
  shows "\<exists>t s1. adb_total_roots E device roots subs tot s = (Inr t, s1) \<and> scanned s1 = scanned s"
proof (induction roots arbitrary: s tot)
  case Nil
  then show ?case by simp
next
  case (Cons root rest)
  from adb_total_subs_answered[OF a n, of root subs tot s] obtain t s1 where
    t: "adb_total_subs E device root subs tot s = (Inr t, s1)" "scanned s1 = scanned s" by blast
  from Cons.IH[of t s1] t show ?case by simp
qed

lemma adb_subs_loop_escape:
  assumes a: "\<forall>p. \<exists>b. adb_path_exists E (src_value R) p = Inr b"
  shows "fst (adb_subs_loop E R root subs s) = Some e \<Longrightarrow> \<not> catchable e"
proof (induction subs arbitrary: s)
  case Nil
  then show ?case by simp
next
  case (Cons sub rest)
  let ?d = "root @ ''/'' @ sub"
  from a obtain b where b: "adb_path_exists E (src_value R) ?d = Inr b" by blast
  obtain c s1 where i: "is_set E s = (c, s1)" by (cases "is_set E s")
  let ?s2 = "called (Adb_path_exists ?d) s1"
  let ?s3 = "called (Adb_find_files ?d) ?s2"
  show ?case
  proof (cases c)
    case True
    with i Cons.prems show ?thesis by simp
  next
    case False
    note c = this
    show ?thesis
    proof (cases b)
      case False
      with c i b Cons.prems
      have "fst (adb_subs_loop E R root rest
                   (put (Log (''Skipping missing folder: '' @ ?d)) ?s2)) = Some e"
        by (simp add: Let_def)
      then show ?thesis by (rule Cons.IH)
    next
      case True
      show ?thesis
      proof (cases "adb_find_files E (src_value R) ?d")
        case (Inl e')
        show ?thesis
        proof (cases "catchable e'")
          case False
          with c i b True Inl Cons.prems show ?thesis by (simp add: Let_def)
        next
          case ce: True
          with c i b True Inl Cons.prems
          have "fst (adb_subs_loop E R root rest
                       (record_error (error_msg ''ERROR listing files in: '' ?d e') ?s3)) = Some e"
            by (simp add: Let_def)
          then show ?thesis by (rule Cons.IH)
        qed
      next
        case (Inr files)
        obtain x s4 where p: "adb_files_loop E R root files ?s3 = (x, s4)"
          by (cases "adb_files_loop E R root files ?s3")
        show ?thesis
        proof (cases x)
          case None
          with c i b True Inr p Cons.prems have "fst (adb_subs_loop E R root rest s4) = Some e"
            by (simp add: Let_def)
          then show ?thesis by (rule Cons.IH)
        next
          case (Some e')
          with c i b True Inr p Cons.prems have "e' = e" by (simp add: Let_def)
          with Some p adb_files_loop_escape[of E R root files ?s3 e] show ?thesis by simp
        qed
      qed
    qed
  qed
qed

lemma adb_roots_loop_escape:
  assumes a: "\<forall>p. \<exists>b. adb_path_exists E (src_value R) p = Inr b"
  shows "fst (adb_roots_loop E R roots s) = Some e \<Longrightarrow> \<not> catchable e"
proof (induction roots arbitrary: s)
  case Nil
  then show ?case by simp
next
  case (Cons root rest)
  obtain c s1 where i: "is_set E s = (c, s1)" by (cases "is_set E s")
  obtain x s2 where p: "adb_subs_loop E R root (subfolders R) s1 = (x, s2)"
    by (cases "adb_subs_loop E R root (subfolders R) s1")
  show ?case
  proof (cases c)
    case True
    with i Cons.prems show ?thesis by simp
  next
    case False
    show ?thesis
    proof (cases x)
      case None
      with False i p Cons.prems have "fst (adb_roots_loop E R rest s2) = Some e" by simp
      then show ?thesis by (rule Cons.IH)
    next
      case (Some e')
      with False i p Cons.prems have "e' = e" by simp
      with Some p adb_subs_loop_escape[OF a, of root "subfolders R" s1 e] show ?thesis by simp
    qed
  qed
qed

lemma worker_adb_count:
  assumes c: "cancel_at E = None"
    and a: "\<forall>p. \<exists>b. adb_path_exists E (src_value R) p = Inr b"
    and n: "\<forall>p. \<exists>k. adb_count_files E (src_value R) p = Inr k"
    and r: "fst (worker_adb E R s) = None"
  shows "scanned (snd (worker_adb E R s)) =
           scanned s + adb_enumerated E (src_value R) (found_roots E (src_value R)) (subfolders R)"
proof -
  let ?roots = "found_roots E (src_value R)"
  from find_roots_loop_answered[OF a, of media_root_candidates s] obtain s1 where
    f: "adb_find_whatsapp_media_roots E (src_value R) s = (Inr ?roots, s1)" "scanned s1 = scanned s"
    by (auto simp: adb_find_whatsapp_media_roots_def found_roots_def)
  show ?thesis
  proof (cases "?roots = []")
    case True
    with f show ?thesis by (simp add: worker_adb_def adb_enumerated_def step_defs)
  next
    case False
    let ?s2 = "put (Log (''Using WhatsApp Media root(s): '' @ join_str '', '' ?roots)) s1"
    from adb_total_roots_answered[OF a n, of ?roots "subfolders R" 0 ?s2] obtain t s3 where
      t: "adb_total_roots E (src_value R) ?roots (subfolders R) 0 ?s2 = (Inr t, s3)"
         "scanned s3 = scanned ?s2" by blast
    obtain x s4 where l: "adb_roots_loop E R ?roots (announce_total t s3) = (x, s4)"
      by (cases "adb_roots_loop E R ?roots (announce_total t s3)")
    show ?thesis
    proof (cases x)
      case (Some e)
      with adb_roots_loop_escape[OF a, of ?roots "announce_total t s3" e] l
      have "\<not> catchable e" by simp
      with Some f False t l r show ?thesis
        by (simp add: worker_adb_def Let_def fatal_handler_def)
    next
      case None
      with adb_roots_loop_count[OF c, of R ?roots "announce_total t s3"] l
      have "scanned s4 = scanned (announce_total t s3) +
              adb_enumerated E (src_value R) ?roots (subfolders R)" by simp
      with f t have "scanned s4 = scanned s + adb_enumerated E (src_value R) ?roots (subfolders R)"
        by (simp add: step_defs)
      with None f False t l show ?thesis by (simp add: worker_adb_def Let_def)
    qed
  qed
qed

lemma listed_in_snoc [simp]:
  "listed_in E d (tr @ [c]) = listed_in E d tr + listing_size E d c"
  by (simp add: listed_in_def)

lemma listed_in_called [simp]:
  "listed_in E d (trace (called c s)) = listed_in E d (trace s) + listing_size E d c"
  by (simp add: called_def)

lemma listing_size_simps [simp]:
  "listing_size E d (Adb_path_exists p) = 0"
  "listing_size E d (Adb_count_files p) = 0"
  "listing_size E d (Adb_stat_mtime p) = 0"
  "listing_size E d (Adb_pull p q) = 0"
  "listing_size E d (Getmtime p) = 0"
  "listing_size E d (Local_transfer m p q) = 0"
  by (simp_all add: listing_size_def)

lemma listed_in_adb_process_file:
  "listed_in E d (trace (snd (adb_process_file E R root f s))) = listed_in E d (trace s)"
  using adb_process_file_effect(3)[where E=E and R=R and root=root and f=f and s=s]
  by (simp add: listed_in_def)

lemma listed_in_adb_files_loop:
  "listed_in E d (trace (snd (adb_files_loop E R root files s))) = listed_in E d (trace s)"
proof (induction files arbitrary: s)
  case Nil
  then show ?case by simp
next
  case (Cons f rest)
  obtain c s1 where i: "is_set E s = (c, s1)" by (cases "is_set E s")
  with is_set_frame[of E s] have s1: "trace s1 = trace s" by simp
  obtain x s2 where p: "adb_process_file E R root f s1 = (x, s2)"
    by (cases "adb_process_file E R root f s1")
  with listed_in_adb_process_file[of E d R root f s1] s1
  have s2: "listed_in E d (trace s2) = listed_in E d (trace s)" by simp
  from Cons.IH[of s2] i p s1 s2 show ?case
    by (cases c; cases x) simp_all
qed

lemma listed_in_find_roots_loop:
  "listed_in E d (trace (snd (find_roots_loop E dev cs s))) = listed_in E d (trace s)"
proof (induction cs arbitrary: s)
  case Nil
  then show ?case by simp
next
  case (Cons c cs)
  from Cons.IH[of "called (Adb_path_exists c) s"] show ?case
    by (auto simp: Let_def split: sum.splits prod.splits)
qed

lemma listed_in_adb_total_subs:
  "listed_in E d (trace (snd (adb_total_subs E dev root subs tot s))) = listed_in E d (trace s)"
proof (induction subs arbitrary: s tot)
  case Nil
  then show ?case by simp
next
  case (Cons sub rest)
  let ?d = "root @ ''/'' @ sub"
  from Cons.IH[of tot "called (Adb_path_exists ?d) s"]
    Cons.IH[of _ "called (Adb_count_files ?d) (called (Adb_path_exists ?d) s)"]
  show ?case
    by (auto simp: Let_def split: sum.splits bool.splits)
qed

lemma listed_in_adb_total_roots:
  "listed_in E d (trace (snd (adb_total_roots E dev roots subs tot s))) = listed_in E d (trace s)"
proof (induction roots arbitrary: s tot)
  case Nil
  then show ?case by simp
next
  case (Cons root rest)
  obtain x s1 where p: "adb_total_subs E dev root subs tot s = (x, s1)"
    by (cases "adb_total_subs E dev root subs tot s")
  with listed_in_adb_total_subs[of E d dev root subs tot s]
  have s1: "listed_in E d (trace s1) = listed_in E d (trace s)" by simp
  from Cons.IH[of _ s1] p s1 show ?case
    by (cases x) simp_all
qed

lemma scanned_find_roots_loop:
  "scanned (snd (find_roots_loop E dev cs s)) = scanned s"
proof (induction cs arbitrary: s)
  case Nil
  then show ?case by simp
next
  case (Cons c cs)
  from Cons.IH[of "called (Adb_path_exists c) s"] show ?case
    by (auto simp: Let_def called_def split: sum.splits prod.splits)
qed

lemma scanned_adb_total_subs:
  "scanned (snd (adb_total_subs E dev root subs tot s)) = scanned s"
proof (induction subs arbitrary: s tot)
  case Nil
  then show ?case by simp
next
  case (Cons sub rest)
  let ?d = "root @ ''/'' @ sub"
  from Cons.IH[of tot "called (Adb_path_exists ?d) s"]
    Cons.IH[of _ "called (Adb_count_files ?d) (called (Adb_path_exists ?d) s)"]
  show ?case
    by (auto simp: Let_def called_def split: sum.splits bool.splits)
qed

lemma scanned_adb_total_roots:
  "scanned (snd (adb_total_roots E dev roots subs tot s)) = scanned s"
proof (induction roots arbitrary: s tot)
  case Nil
  then show ?case by simp
next
  case (Cons root rest)
  obtain x s1 where p: "adb_total_subs E dev root subs tot s = (x, s1)"
    by (cases "adb_total_subs E dev root subs tot s")
  with scanned_adb_total_subs[of E dev root subs tot s] have s1: "scanned s1 = scanned s" by simp
  from Cons.IH[of _ s1] p s1 show ?case
    by (cases x) simp_all
qed

lemma adb_subs_loop_listed:
  assumes c: "cancel_at E = None"
  shows "\<forall>e. fst (adb_subs_loop E R root subs s) = Some e \<longrightarrow> catchable e \<Longrightarrow>
         scanned (snd (adb_subs_loop E R root subs s)) -
           listed_in E (src_value R) (trace (snd (adb_subs_loop E R root subs s))) =
         scanned s - listed_in E (src_value R) (trace s)"
proof (induction subs arbitrary: s)
  case Nil
  then show ?case by simp
next
  case (Cons sub rest)
  let ?d = "root @ ''/'' @ sub"
  let ?s1 = "s\<lparr>polls := polls s + 1\<rparr>"
  let ?s2 = "called (Adb_path_exists ?d) ?s1"
  let ?s3 = "called (Adb_find_files ?d) ?s2"
  note i = is_set_never[OF c, of s]
  show ?case
  proof (cases "adb_path_exists E (src_value R) ?d")
    case (Inl e)
    with i show ?thesis by (simp add: Let_def step_defs)
  next
    case (Inr b)
    note ex = this
    show ?thesis
    proof (cases b)
      case False
      let ?s' = "put (Log (''Skipping missing folder: '' @ ?d)) ?s2"
      from i ex False have eq: "adb_subs_loop E R root (sub # rest) s = adb_subs_loop E R root rest ?s'"
        by (simp add: Let_def)
      with Cons.prems have "\<forall>e. fst (adb_subs_loop E R root rest ?s') = Some e \<longrightarrow> catchable e"
        by simp
      from Cons.IH[OF this] eq show ?thesis by (simp add: step_defs)
    next
      case True
      note b = this
      show ?thesis
      proof (cases "adb_find_files E (src_value R) ?d")
        case (Inl e)
        show ?thesis
        proof (cases "catchable e")
          case False
          with i ex b Inl show ?thesis
            by (simp add: Let_def step_defs listing_size_def listed_in_def)
        next
          case True
          let ?s' = "record_error (error_msg ''ERROR listing files in: '' ?d e) ?s3"
          from i ex b Inl True
          have eq: "adb_subs_loop E R root (sub # rest) s = adb_subs_loop E R root rest ?s'"
            by (simp add: Let_def)
          with Cons.prems have "\<forall>e. fst (adb_subs_loop E R root rest ?s') = Some e \<longrightarrow> catchable e"
            by simp
          from Cons.IH[OF this] eq Inl show ?thesis
            by (simp add: step_defs listing_size_def listed_in_def)
        qed
      next
        case (Inr files)
        obtain x s4 where p: "adb_files_loop E R root files ?s3 = (x, s4)"
          by (cases "adb_files_loop E R root files ?s3")
        have x: "x = None"
        proof (cases x)
          case None
          then show ?thesis .
        next
          case (Some e)
          with i ex b Inr p have "fst (adb_subs_loop E R root (sub # rest) s) = Some e"
            by (simp add: Let_def)
          with Cons.prems have "catchable e" by blast
          with adb_files_loop_escape[of E R root files ?s3 e] p Some show ?thesis by simp
        qed
        with adb_files_loop_count[OF c, of R root files ?s3] p
        have sc: "scanned s4 = scanned s + int (length files)" by (simp add: step_defs)
        from listed_in_adb_files_loop[of E "src_value R" R root files ?s3] p Inr
        have li: "listed_in E (src_value R) (trace s4) =
                  listed_in E (src_value R) (trace s) + int (length files)"
          by (simp add: step_defs listing_size_def listed_in_def)
        from i ex b Inr p x
        have eq: "adb_subs_loop E R root (sub # rest) s = adb_subs_loop E R root rest s4"
          by (simp add: Let_def)
        with Cons.prems have "\<forall>e. fst (adb_subs_loop E R root rest s4) = Some e \<longrightarrow> catchable e"
          by simp
        from Cons.IH[OF this] eq sc li show ?thesis by simp
      qed
    qed
  qed
qed

lemma adb_roots_loop_listed:
  assumes c: "cancel_at E = None"
  shows "\<forall>e. fst (adb_roots_loop E R roots s) = Some e \<longrightarrow> catchable e \<Longrightarrow>
         scanned (snd (adb_roots_loop E R roots s)) -
           listed_in E (src_value R) (trace (snd (adb_roots_loop E R roots s))) =
         scanned s - listed_in E (src_value R) (trace s)"
proof (induction roots arbitrary: s)
  case Nil
  then show ?case by simp
next
  case (Cons root rest)
  let ?s1 = "s\<lparr>polls := polls s + 1\<rparr>"
  note i = is_set_never[OF c, of s]
  obtain x s2 where p: "adb_subs_loop E R root (subfolders R) ?s1 = (x, s2)"
    by (cases "adb_subs_loop E R root (subfolders R) ?s1")
  have h: "\<forall>e. fst (adb_subs_loop E R root (subfolders R) ?s1) = Some e \<longrightarrow> catchable e"
  proof (intro allI impI)
    fix e assume "fst (adb_subs_loop E R root (subfolders R) ?s1) = Some e"
    with i p have "fst (adb_roots_loop E R (root # rest) s) = Some e" by simp
    with Cons.prems show "catchable e" by blast
  qed
  from adb_subs_loop_listed[OF c h] p
  have s2: "scanned s2 - listed_in E (src_value R) (trace s2) =
            scanned s - listed_in E (src_value R) (trace s)" by simp
  show ?case
  proof (cases x)
    case (Some e)
    with i p s2 show ?thesis by simp
  next
    case None
    with i p have eq: "adb_roots_loop E R (root # rest) s = adb_roots_loop E R rest s2" by simp
    with Cons.prems have "\<forall>e. fst (adb_roots_loop E R rest s2) = Some e \<longrightarrow> catchable e" by simp
    from Cons.IH[OF this] eq s2 show ?thesis by simp
  qed
qed

lemma trace_announce_total [simp]: "trace (announce_total n s) = trace s"
  by (simp add: announce_total_def step_defs)

lemma trace_final_log [simp]: "trace (final_log E m s) = trace s"
  by (simp add: final_log_def is_set_def step_defs)

lemma fatal_handler_caught:
  "fst (fatal_handler w e s) = None \<Longrightarrow>
     catchable e \<and> scanned (snd (fatal_handler w e s)) = scanned s \<and>
     trace (snd (fatal_handler w e s)) = trace s"
  by (simp add: fatal_handler_def step_defs split: if_splits)

lemma worker_adb_listed:
  assumes c: "cancel_at E = None" and r: "fst (worker_adb E R s) = None"
  shows "scanned (snd (worker_adb E R s)) -
           listed_in E (src_value R) (trace (snd (worker_adb E R s))) =
         scanned s - listed_in E (src_value R) (trace s)"
proof -
  let ?dev = "src_value R"
  obtain x s1 where f: "adb_find_whatsapp_media_roots E ?dev s = (x, s1)"
    by (cases "adb_find_whatsapp_media_roots E ?dev s")
  with listed_in_find_roots_loop[of E ?dev ?dev media_root_candidates s]
  have l1: "listed_in E ?dev (trace s1) = listed_in E ?dev (trace s)"
    by (simp add: adb_find_whatsapp_media_roots_def)
  from scanned_find_roots_loop[of E ?dev media_root_candidates s] f have c1: "scanned s1 = scanned s"
    by (simp add: adb_find_whatsapp_media_roots_def)
  show ?thesis
  proof (cases x)
    case (Inl e)
    with f r have "fst (fatal_handler ''FATAL (ADB mode): '' e s1) = None"
      by (simp add: worker_adb_def)
    from fatal_handler_caught[OF this] Inl f l1 c1 show ?thesis
      by (simp add: worker_adb_def)
  next
    case (Inr roots)
    note x = this
    show ?thesis
    proof (cases "roots = []")
      case True
      with f x l1 c1 show ?thesis by (simp add: worker_adb_def step_defs)
    next
      case False
      let ?s2 = "put (Log (''Using WhatsApp Media root(s): '' @ join_str '', '' roots)) s1"
      obtain y s3 where t: "adb_total_roots E ?dev roots (subfolders R) 0 ?s2 = (y, s3)"
        by (cases "adb_total_roots E ?dev roots (subfolders R) 0 ?s2")
      with listed_in_adb_total_roots[of E ?dev ?dev roots "subfolders R" 0 ?s2] l1
      have l3: "listed_in E ?dev (trace s3) = listed_in E ?dev (trace s)"
        by (simp add: step_defs)
      from scanned_adb_total_roots[of E ?dev roots "subfolders R" 0 ?s2] t c1
      have c3: "scanned s3 = scanned s"
        by (simp add: step_defs)
      show ?thesis
      proof (cases y)
        case (Inl e)
        with f x False t r have "fst (fatal_handler ''FATAL (ADB mode): '' e s3) = None"
          by (simp add: worker_adb_def Let_def)
        from fatal_handler_caught[OF this] Inl f x False t l3 c3 show ?thesis
          by (simp add: worker_adb_def Let_def)
      next
        case (Inr tot)
        obtain z s4 where l: "adb_roots_loop E R roots (announce_total tot s3) = (z, s4)"
          by (cases "adb_roots_loop E R roots (announce_total tot s3)")
        have h: "\<forall>e. fst (adb_roots_loop E R roots (announce_total tot s3)) = Some e \<longrightarrow> catchable e"
        proof (intro allI impI)
          fix e assume "fst (adb_roots_loop E R roots (announce_total tot s3)) = Some e"
          with l have z: "z = Some e" by simp
          with f x False t Inr l r have "fst (fatal_handler ''FATAL (ADB mode): '' e s4) = None"
            by (simp add: worker_adb_def Let_def)
          from fatal_handler_caught[OF this] show "catchable e" by simp
        qed
        from adb_roots_loop_listed[OF c h] l l3 c3
        have s4: "scanned s4 - listed_in E ?dev (trace s4) = scanned s - listed_in E ?dev (trace s)"
          by simp
        show ?thesis
        proof (cases z)
          case None
          with f x False t Inr l s4 show ?thesis by (simp add: worker_adb_def Let_def)
        next
          case (Some e)
          with f x False t Inr l r have "fst (fatal_handler ''FATAL (ADB mode): '' e s4) = None"
            by (simp add: worker_adb_def Let_def)
          from fatal_handler_caught[OF this] Some f x False t Inr l s4 show ?thesis
            by (simp add: worker_adb_def Let_def)
        qed
      qed
    qed
  qed
qed

lemma ensure_dir_raises:
  assumes "\<forall>p e. makedirs E p = Some e \<longrightarrow> catchable e"
  shows "fst (ensure_dir E p s) = Some e \<Longrightarrow> catchable e"
  using assms by (auto simp: ensure_dir_def split: if_splits option.splits)

lemma adb_pull_raises:
  assumes m: "\<forall>p e. makedirs E p = Some e \<longrightarrow> catchable e"
    and r: "\<forall>a b e. adb_run_pull E d a b = Some e \<longrightarrow> catchable e"
  shows "fst (adb_pull E d src dst s) = Some e \<Longrightarrow> catchable e"
proof -
  assume a: "fst (adb_pull E d src dst s) = Some e"
  obtain x s1 where en: "ensure_dir E (dirname dst) s = (x, s1)"
    by (cases "ensure_dir E (dirname dst) s")
  show ?thesis
  proof (cases x)
    case (Some e')
    with en a have "e' = e" by (simp add: adb_pull_def)
    with Some en ensure_dir_raises[OF m, of "dirname dst" s e] show ?thesis by simp
  next
    case None
    with en a have "adb_run_pull E d src dst = Some e"
      by (simp add: adb_pull_def split: option.splits)
    with r show ?thesis by blast
  qed
qed

lemma adb_process_file_returns:
  assumes m: "\<forall>p e. makedirs E p = Some e \<longrightarrow> catchable e"
    and r: "\<forall>a b e. adb_run_pull E (src_value R) a b = Some e \<longrightarrow> catchable e"
    and st: "\<forall>f e. adb_stat_mtime E (src_value R) f = Inl e \<longrightarrow> catchable e"
  shows "fst (adb_process_file E R root f s) = None"
proof (cases "adb_stat_mtime E (src_value R) f")
  case (Inl e)
  with st have "catchable e" by blast
  with Inl show ?thesis by (simp add: adb_process_file_def Let_def)
next
  case (Inr mt)
  show ?thesis
  proof (cases "in_range R mt")
    case False
    with Inr show ?thesis by (simp add: adb_process_file_def Let_def)
  next
    case True
    let ?dst = "unique_destination_path (existing s) (path_join (dest_root R) (adb_rel_path root f))"
    let ?c = "called (Adb_pull f ?dst) (called (Adb_stat_mtime f) (count_scanned s))"
    obtain x s2 where p: "adb_pull E (src_value R) f ?dst ?c = (x, s2)"
      by (cases "adb_pull E (src_value R) f ?dst ?c")
    show ?thesis
    proof (cases x)
      case None
      with adb_process_file_in_range[OF Inr True, where root=root and s=s] p show ?thesis by simp
    next
      case (Some e)
      with adb_pull_raises[OF m r, of f ?dst ?c e] p have "catchable e" by simp
      with Some adb_process_file_in_range[OF Inr True, where root=root and s=s] p show ?thesis
        by simp
    qed
  qed
qed

lemma adb_files_loop_returns:
  assumes m: "\<forall>p e. makedirs E p = Some e \<longrightarrow> catchable e"
    and r: "\<forall>a b e. adb_run_pull E (src_value R) a b = Some e \<longrightarrow> catchable e"
    and st: "\<forall>f e. adb_stat_mtime E (src_value R) f = Inl e \<longrightarrow> catchable e"
  shows "fst (adb_files_loop E R root files s) = None"
proof (induction files arbitrary: s)
  case Nil
  then show ?case by simp
next
  case (Cons f rest)
  obtain c s1 where i: "is_set E s = (c, s1)" by (cases "is_set E s")
  obtain x s2 where p: "adb_process_file E R root f s1 = (x, s2)"
    by (cases "adb_process_file E R root f s1")
  with adb_process_file_returns[OF m r st, of root f s1] have "x = None" by simp
  with Cons.IH[of s2] i p show ?case by (cases c) simp_all
qed

lemma adb_subs_loop_raises:
  assumes m: "\<forall>p e. makedirs E p = Some e \<longrightarrow> catchable e"
    and r: "\<forall>a b e. adb_run_pull E (src_value R) a b = Some e \<longrightarrow> catchable e"
    and st: "\<forall>f e. adb_stat_mtime E (src_value R) f = Inl e \<longrightarrow> catchable e"
    and pe: "\<forall>p e. adb_path_exists E (src_value R) p = Inl e \<longrightarrow> catchable e"
    and ff: "\<forall>p e. adb_find_files E (src_value R) p = Inl e \<longrightarrow> catchable e"
  shows "fst (adb_subs_loop E R root subs s) = Some e \<Longrightarrow> catchable e"
proof (induction subs arbitrary: s)
  case Nil
  then show ?case by simp
next
  case (Cons sub rest)
  let ?d = "root @ ''/'' @ sub"
  obtain c s1 where i: "is_set E s = (c, s1)" by (cases "is_set E s")
  let ?s2 = "called (Adb_path_exists ?d) s1"
  let ?s3 = "called (Adb_find_files ?d) ?s2"
  show ?case
  proof (cases c)
    case True
    with i Cons.prems show ?thesis by simp
  next
    case False
    note c = this
    show ?thesis
    proof (cases "adb_path_exists E (src_value R) ?d")
      case (Inl e')
      with c i Cons.prems have "e' = e" by (simp add: Let_def)
      with Inl pe show ?thesis by blast
    next
      case (Inr b)
      show ?thesis
      proof (cases b)
        case False
        with c i Inr Cons.prems
        have "fst (adb_subs_loop E R root rest
                     (put (Log (''Skipping missing folder: '' @ ?d)) ?s2)) = Some e"
          by (simp add: Let_def)
        then show ?thesis by (rule Cons.IH)
      next
        case True
        show ?thesis
        proof (cases "adb_find_files E (src_value R) ?d")
          case (Inl e')
          from ff Inl have ce: "catchable e'" by blast
          with c i Inr True Inl Cons.prems
          have "fst (adb_subs_loop E R root rest
                       (record_error (error_msg ''ERROR listing files in: '' ?d e') ?s3)) = Some e"
            by (simp add: Let_def)
          then show ?thesis by (rule Cons.IH)
        next
          case fl: (Inr files)
          obtain x s4 where p: "adb_files_loop E R root files ?s3 = (x, s4)"
            by (cases "adb_files_loop E R root files ?s3")
          with adb_files_loop_returns[OF m r st, of root files ?s3] have "x = None" by simp
          with c i Inr True fl p Cons.prems have "fst (adb_subs_loop E R root rest s4) = Some e"
            by (simp add: Let_def)
          then show ?thesis by (rule Cons.IH)
        qed
      qed
    qed
  qed
qed


lemma adb_roots_loop_raises:
  assumes m: "\<forall>p e. makedirs E p = Some e \<longrightarrow> catchable e"
    and r: "\<forall>a b e. adb_run_pull E (src_value R) a b = Some e \<longrightarrow> catchable e"
    and st: "\<forall>f e. adb_stat_mtime E (src_value R) f = Inl e \<longrightarrow> catchable e"
    and pe: "\<forall>p e. adb_path_exists E (src_value R) p = Inl e \<longrightarrow> catchable e"
    and ff: "\<forall>p e. adb_find_files E (src_value R) p = Inl e \<longrightarrow> catchable e"
  shows "fst (adb_roots_loop E R roots s) = Some e \<Longrightarrow> catchable e"
proof (induction roots arbitrary: s)
  case Nil
  then show ?case by simp
next
  case (Cons root rest)
  obtain c s1 where i: "is_set E s = (c, s1)" by (cases "is_set E s")
  obtain x s2 where p: "adb_subs_loop E R root (subfolders R) s1 = (x, s2)"
    by (cases "adb_subs_loop E R root (subfolders R) s1")
  show ?case
  proof (cases c)
    case True
    with i Cons.prems show ?thesis by simp
  next
    case False
    show ?thesis
    proof (cases x)
      case None
      with False i p Cons.prems have "fst (adb_roots_loop E R rest s2) = Some e" by simp
      then show ?thesis by (rule Cons.IH)
    next
      case (Some e')
      with False i p Cons.prems have "e' = e" by simp
      with Some p adb_subs_loop_raises[OF m r st pe ff, of root "subfolders R" s1 e]
      show ?thesis by simp
    qed
  qed
qed

lemma fatal_handler_returns: "catchable e \<Longrightarrow> fst (fatal_handler w e s) = None"
  by (simp add: fatal_handler_def)

lemma find_roots_loop_raises:
  assumes pe: "\<forall>p e. adb_path_exists E d p = Inl e \<longrightarrow> catchable e"
  shows "fst (find_roots_loop E d cs s) = Inl e \<Longrightarrow> catchable e"
proof (induction cs arbitrary: s)
  case Nil
  then show ?case by simp
next
  case (Cons c cs)
  show ?case
  proof (cases "adb_path_exists E d c")
    case (Inl e')
    with Cons.prems have "e' = e" by (simp add: Let_def)
    with Inl pe show ?thesis by blast
  next
    case (Inr b)
    obtain x s2 where p: "find_roots_loop E d cs (called (Adb_path_exists c) s) = (x, s2)"
      by (cases "find_roots_loop E d cs (called (Adb_path_exists c) s)")
    with Inr Cons.prems have "x = Inl e" by (cases x) (simp_all add: Let_def)
    with p Cons.IH[of "called (Adb_path_exists c) s"] show ?thesis by simp
  qed
qed

lemma adb_total_subs_raises:
  assumes pe: "\<forall>p e. adb_path_exists E d p = Inl e \<longrightarrow> catchable e"
    and cf: "\<forall>p e. adb_count_files E d p = Inl e \<longrightarrow> catchable e"
  shows "fst (adb_total_subs E d root subs tot s) = Inl e \<Longrightarrow> catchable e"
proof (induction subs arbitrary: s tot)
  case Nil
  then show ?case by simp
next
  case (Cons sub rest)
  let ?d = "root @ ''/'' @ sub"
  show ?case
  proof (cases "adb_path_exists E d ?d")
    case (Inl e')
    with Cons.prems have "e' = e" by (simp add: Let_def)
    with Inl pe show ?thesis by blast
  next
    case (Inr b)
    show ?thesis
    proof (cases b)
      case False
      with Inr Cons.prems
      have "fst (adb_total_subs E d root rest tot (called (Adb_path_exists ?d) s)) = Inl e"
        by (simp add: Let_def)
      then show ?thesis by (rule Cons.IH)
    next
      case True
      show ?thesis
      proof (cases "adb_count_files E d ?d")
        case (Inl e')
        with Inr True Cons.prems have "e' = e" by (simp add: Let_def)
        with Inl cf show ?thesis by blast
      next
        case k: (Inr k)
        with Inr True Cons.prems
        have "fst (adb_total_subs E d root rest (tot + k)
                     (called (Adb_count_files ?d) (called (Adb_path_exists ?d) s))) = Inl e"
          by (simp add: Let_def)
        then show ?thesis by (rule Cons.IH)
      qed
    qed
  qed
qed

lemma adb_total_roots_raises:
  assumes pe: "\<forall>p e. adb_path_exists E d p = Inl e \<longrightarrow> catchable e"
    and cf: "\<forall>p e. adb_count_files E d p = Inl e \<longrightarrow> catchable e"
  shows "fst (adb_total_roots E d roots subs tot s) = Inl e \<Longrightarrow> catchable e"
proof (induction roots arbitrary: s tot)
  case Nil
  then show ?case by simp
next
  case (Cons root rest)
  obtain x s1 where p: "adb_total_subs E d root subs tot s = (x, s1)"
    by (cases "adb_total_subs E d root subs tot s")
  show ?case
  proof (cases x)
    case (Inl e')
    with p Cons.prems have "e' = e" by simp
    with Inl p adb_total_subs_raises[OF pe cf, of root subs tot s e] show ?thesis by simp
  next
    case (Inr t)
    with p Cons.prems have "fst (adb_total_roots E d rest subs t s1) = Inl e" by simp
    then show ?thesis by (rule Cons.IH)
  qed
qed

lemma worker_adb_returns:
  assumes m: "\<forall>p e. makedirs E p = Some e \<longrightarrow> catchable e"
    and r: "\<forall>a b e. adb_run_pull E (src_value R) a b = Some e \<longrightarrow> catchable e"
    and st: "\<forall>f e. adb_stat_mtime E (src_value R) f = Inl e \<longrightarrow> catchable e"
    and pe: "\<forall>p e. adb_path_exists E (src_value R) p = Inl e \<longrightarrow> catchable e"
    and ff: "\<forall>p e. adb_find_files E (src_value R) p = Inl e \<longrightarrow> catchable e"
    and cf: "\<forall>p e. adb_count_files E (src_value R) p = Inl e \<longrightarrow> catchable e"
  shows "fst (worker_adb E R s) = None"
proof -
  let ?dev = "src_value R"
  obtain x s1 where f: "adb_find_whatsapp_media_roots E ?dev s = (x, s1)"
    by (cases "adb_find_whatsapp_media_roots E ?dev s")
  show ?thesis
  proof (cases x)
    case (Inl e)
    with f find_roots_loop_raises[OF pe, of media_root_candidates s e] have "catchable e"
      by (simp add: adb_find_whatsapp_media_roots_def)
    with Inl f show ?thesis by (simp add: worker_adb_def fatal_handler_returns)
  next
    case (Inr roots)
    note x = this
    show ?thesis
    proof (cases "roots = []")
      case True
      with f x show ?thesis by (simp add: worker_adb_def)
    next
      case False
      let ?s2 = "put (Log (''Using WhatsApp Media root(s): '' @ join_str '', '' roots)) s1"
      obtain y s3 where t: "adb_total_roots E ?dev roots (subfolders R) 0 ?s2 = (y, s3)"
        by (cases "adb_total_roots E ?dev roots (subfolders R) 0 ?s2")
      show ?thesis
      proof (cases y)
        case (Inl e)
        with t adb_total_roots_raises[OF pe cf, of roots "subfolders R" 0 ?s2 e]
        have "catchable e" by simp
        with Inl f x False t show ?thesis by (simp add: worker_adb_def Let_def fatal_handler_returns)
      next
        case (Inr tot)
        obtain z s4 where l: "adb_roots_loop E R roots (announce_total tot s3) = (z, s4)"
          by (cases "adb_roots_loop E R roots (announce_total tot s3)")
        show ?thesis
        proof (cases z)
          case None
          with f x False t Inr l show ?thesis by (simp add: worker_adb_def Let_def)
        next
          case (Some e)
          with l adb_roots_loop_raises[OF m r st pe ff, of roots "announce_total tot s3" e]
          have "catchable e" by simp
          with Some f x False t Inr l show ?thesis
            by (simp add: worker_adb_def Let_def fatal_handler_returns)
        qed
      qed
    qed
  qed
qed

lemma worker_dispatch_fst: "fst (worker_dispatch E R s) =
    fst (if src_mode R = ''adb'' then worker_adb E R s else worker_local E R s)"
  by (simp add: worker_dispatch_def split: prod.splits)

lemma worker_dispatch_snd: "snd (worker_dispatch E R s) =
    put Done (snd (if src_mode R = ''adb'' then worker_adb E R s else worker_local E R s))"
  by (simp add: worker_dispatch_def split: prod.splits)

text \<open>
  Claim C8. For every run that is not cancelled and that no exception leaves, the scanned
  count grows by the number of files enumerated: on the device by the number of files that
  the listings made in the run returned, which is, when the bridge answers every existence
  probe and count, the total over all folders \<open>root/sub\<close> of the found roots and the
  chosen folders that exist and can be listed; on the host by the number of file names in
  the walks of the chosen folders that are directories. The date filter, and the failures
  of stat and transfer, play no part in it.
\<close>

theorem scanned_counts_enumerated_files:
  "(cancel_at E = None \<and> src_mode R = ''adb'' \<and> fst (worker_dispatch E R s) = None \<longrightarrow>
      scanned (snd (worker_dispatch E R s)) - scanned s =
        listed_in E (src_value R) (trace (snd (worker_dispatch E R s))) -
        listed_in E (src_value R) (trace s)) \<and>
   (cancel_at E = None \<and> src_mode R = ''adb'' \<and> fst (worker_dispatch E R s) = None \<and>
    (\<forall>p. \<exists>b. adb_path_exists E (src_value R) p = Inr b) \<and>
    (\<forall>p. \<exists>k. adb_count_files E (src_value R) p = Inr k) \<longrightarrow>
      scanned (snd (worker_dispatch E R s)) =
        scanned s + adb_enumerated E (src_value R) (found_roots E (src_value R)) (subfolders R)) \<and>
   (cancel_at E = None \<and> src_mode R \<noteq> ''adb'' \<and> fst (worker_dispatch E R s) = None \<longrightarrow>
      scanned (snd (worker_dispatch E R s)) =
        scanned s + local_enumerated E (detect_media_root E (src_value R)) (subfolders R))"
proof -
  have a: "cancel_at E = None \<and> src_mode R = ''adb'' \<and> fst (worker_dispatch E R s) = None \<longrightarrow>
      scanned (snd (worker_dispatch E R s)) - scanned s =
        listed_in E (src_value R) (trace (snd (worker_dispatch E R s))) -
        listed_in E (src_value R) (trace s)"
  proof
    assume h: "cancel_at E = None \<and> src_mode R = ''adb'' \<and> fst (worker_dispatch E R s) = None"
    then have md: "src_mode R = ''adb''" and f0: "fst (worker_dispatch E R s) = None" by blast+
    from f0 have "fst (worker_adb E R s) = None" unfolding worker_dispatch_fst md by simp
    from worker_adb_listed[OF _ this] h
    show "scanned (snd (worker_dispatch E R s)) - scanned s =
        listed_in E (src_value R) (trace (snd (worker_dispatch E R s))) -
        listed_in E (src_value R) (trace s)"
      by (simp add: worker_dispatch_snd put_def)
  qed
  have b: "cancel_at E = None \<and> src_mode R = ''adb'' \<and> fst (worker_dispatch E R s) = None \<and>
    (\<forall>p. \<exists>b. adb_path_exists E (src_value R) p = Inr b) \<and>
    (\<forall>p. \<exists>k. adb_count_files E (src_value R) p = Inr k) \<longrightarrow>
      scanned (snd (worker_dispatch E R s)) =
        scanned s + adb_enumerated E (src_value R) (found_roots E (src_value R)) (subfolders R)"
  proof
    assume h: "cancel_at E = None \<and> src_mode R = ''adb'' \<and> fst (worker_dispatch E R s) = None \<and>
      (\<forall>p. \<exists>b. adb_path_exists E (src_value R) p = Inr b) \<and>
      (\<forall>p. \<exists>k. adb_count_files E (src_value R) p = Inr k)"
    then have md: "src_mode R = ''adb''" and f0: "fst (worker_dispatch E R s) = None" by blast+
    from f0 have r: "fst (worker_adb E R s) = None" unfolding worker_dispatch_fst md by simp
    from h have c: "cancel_at E = None"
      and pa: "\<forall>p. \<exists>b. adb_path_exists E (src_value R) p = Inr b"
      and ca: "\<forall>p. \<exists>k. adb_count_files E (src_value R) p = Inr k" by blast+
    from worker_adb_count[OF c pa ca r] h
    show "scanned (snd (worker_dispatch E R s)) =
        scanned s + adb_enumerated E (src_value R) (found_roots E (src_value R)) (subfolders R)"
      by (simp add: worker_dispatch_snd put_def)
  qed
  have c: "cancel_at E = None \<and> src_mode R \<noteq> ''adb'' \<and> fst (worker_dispatch E R s) = None \<longrightarrow>
      scanned (snd (worker_dispatch E R s)) =
        scanned s + local_enumerated E (detect_media_root E (src_value R)) (subfolders R)"
  proof
    assume h: "cancel_at E = None \<and> src_mode R \<noteq> ''adb'' \<and> fst (worker_dispatch E R s) = None"
    then have md: "src_mode R \<noteq> ''adb''" and f0: "fst (worker_dispatch E R s) = None" by blast+
    from f0 md have r: "fst (worker_local E R s) = None" unfolding worker_dispatch_fst by simp
    from h have c: "cancel_at E = None" by blast
    from worker_local_count[OF c r] h
    show "scanned (snd (worker_dispatch E R s)) =
        scanned s + local_enumerated E (detect_media_root E (src_value R)) (subfolders R)"
      by (simp add: worker_dispatch_snd put_def)
  qed
  from a b c show ?thesis by blast
qed

theorem scanned_counts_enumerated_files_witness:
  "cancel_at demo_env = None \<and> src_mode (demo_request ''adb'') = ''adb'' \<and>
   fst (worker_dispatch demo_env (demo_request ''adb'') demo_state) = None \<and>
   scanned (snd (worker_dispatch demo_env (demo_request ''adb'') demo_state)) = 2 \<and>
   listed_in demo_env ''dev'' (trace (snd (worker_dispatch demo_env (demo_request ''adb'') demo_state))) = 2 \<and>
   src_mode (demo_request ''local'') \<noteq> ''adb'' \<and>
   fst (worker_dispatch demo_env (demo_request ''local'') demo_state) = None \<and>
   scanned (snd (worker_dispatch demo_env (demo_request ''local'') demo_state)) = 2 \<and>
   local_enumerated demo_env (detect_media_root demo_env (src_value (demo_request ''local'')))
     (subfolders (demo_request ''local'')) = 2"
proof -
  have c: "cancel_at demo_env = None" by (simp add: demo_env_def)
  have ma: "src_mode (demo_request ''adb'') = ''adb''" "src_value (demo_request ''adb'') = ''dev''"
    "src_mode (demo_request ''local'') \<noteq> ''adb''"
    by (simp_all add: demo_request_def)
  have pa: "\<forall>p. \<exists>b. adb_path_exists demo_env (src_value (demo_request ''adb'')) p = Inr b"
    and ca: "\<forall>p. \<exists>k. adb_count_files demo_env (src_value (demo_request ''adb'')) p = Inr k"
    by (simp_all add: demo_env_def)
  have r: "fst (worker_adb demo_env (demo_request ''adb'') demo_state) = None"
    by (rule worker_adb_returns) (simp_all add: demo_env_def demo_mtime_def demo_copy_def)
  then have ra: "fst (worker_dispatch demo_env (demo_request ''adb'') demo_state) = None"
    using ma by (simp add: worker_dispatch_fst)
  have en: "adb_enumerated demo_env ''dev'' (found_roots demo_env ''dev'')
              (subfolders (demo_request ''adb'')) = 2"
    by code_simp
  have le: "local_enumerated demo_env (detect_media_root demo_env (src_value (demo_request ''local'')))
     (subfolders (demo_request ''local'')) = 2"
    by code_simp
  have st: "scanned demo_state = 0" "trace demo_state = []" by (simp_all add: demo_state_def)
  from scanned_counts_enumerated_files[of demo_env "demo_request ''adb''" demo_state]
    c ma pa ca ra en st
  have a: "scanned (snd (worker_dispatch demo_env (demo_request ''adb'') demo_state)) = 2"
    "listed_in demo_env ''dev'' (trace (snd (worker_dispatch demo_env (demo_request ''adb'') demo_state))) = 2"
    by (simp_all add: listed_in_def)
  from scanned_counts_enumerated_files[of demo_env "demo_request ''local''" demo_state]
    c ma le st
  have b: "scanned (snd (worker_dispatch demo_env (demo_request ''local'') demo_state)) = 2"
    by (simp add: demo_local_run)
  from c ma ra a b le show ?thesis by (simp add: demo_local_run)
qed

section \<open>Cancellation: how much work is left once the latch is set\<close>

lemma bounded_refl: "bounded w k s s"
  by (simp add: bounded_def)

lemma bounded_trans: "bounded w k s s1 \<Longrightarrow> bounded w k s1 s2 \<Longrightarrow> bounded w k s s2"
  by (auto simp: bounded_def)

lemma bounded_put: "bounded w k s (put e s)"
  by (simp add: bounded_def scan_potential_def call_potential_def put_def)

lemma bounded_record_error: "bounded w k s (record_error m s)"
  by (simp add: bounded_def scan_potential_def call_potential_def step_defs)

lemma bounded_poll_true:
  "cancel_at E = Some k \<Longrightarrow> fst (is_set E s) \<Longrightarrow> bounded w k s (snd (is_set E s))"
  by (auto simp: bounded_def scan_potential_def call_potential_def is_set_def)

lemma scan_potential_poll_false:
  assumes "cancel_at E = Some k" and "\<not> fst (is_set E s)"
  shows "scan_potential k (snd (is_set E s)) + 1 = scan_potential k s"
  using assms by (auto simp: scan_potential_def is_set_def)

lemma call_potential_poll_false:
  assumes "cancel_at E = Some k" and "\<not> fst (is_set E s)"
  shows "call_potential w k (snd (is_set E s)) + 2 = call_potential w k s"
  using assms by (auto simp: call_potential_def is_set_def)

lemma potentials_adb_process_file:
  assumes w: "\<forall>c. w c \<le> 1"
  shows "scan_potential k (snd (adb_process_file E R root f s)) = scan_potential k s + 1"
    and "call_potential w k (snd (adb_process_file E R root f s)) \<le> call_potential w k s + 2"
proof -
  let ?s' = "snd (adb_process_file E R root f s)"
  note e = adb_process_file_effect[where E=E and R=R and root=root and f=f and s=s]
  from e(1,2) show "scan_potential k ?s' = scan_potential k s + 1"
    by (simp add: scan_potential_def)
  have "w c1 + w c2 \<le> 2" for c1 c2 using w by (metis add_mono one_add_one)
  moreover have "w c1 \<le> 2" for c1 using w by (meson le_trans one_le_numeral)
  ultimately show "call_potential w k ?s' \<le> call_potential w k s + 2"
    using e(2,3) by (simp add: call_potential_def)
qed

lemma potentials_local_process_file:
  assumes w: "\<forall>c. w c \<le> 1"
  shows "scan_potential k (snd (local_process_file E R media_root dir name s)) = scan_potential k s + 1"
    and "call_potential w k (snd (local_process_file E R media_root dir name s))
           \<le> call_potential w k s + 2"
proof -
  let ?s' = "snd (local_process_file E R media_root dir name s)"
  note e = local_process_file_effect[where E=E and R=R and media_root=media_root and root=dir
      and name=name and s=s]
  from e(1,2) show "scan_potential k ?s' = scan_potential k s + 1"
    by (simp add: scan_potential_def)
  have "w c1 + w c2 \<le> 2" for c1 c2 using w by (metis add_mono one_add_one)
  moreover have "w c1 \<le> 2" for c1 using w by (meson le_trans one_le_numeral)
  ultimately show "call_potential w k ?s' \<le> call_potential w k s + 2"
    using e(2,3) by (simp add: call_potential_def)
qed

lemma bounded_adb_files_loop:
  assumes c: "cancel_at E = Some k" and w: "\<forall>c. w c \<le> 1"
  shows "bounded w k s (snd (adb_files_loop E R root files s))"
proof (induction files arbitrary: s)
  case Nil
  then show ?case by (simp add: bounded_refl)
next
  case (Cons f rest)
  obtain b s1 where i: "is_set E s = (b, s1)" by (cases "is_set E s")
  show ?case
  proof (cases b)
    case True
    with bounded_poll_true[OF c, where s=s and w=w] i show ?thesis by simp
  next
    case False
    obtain x s2 where p: "adb_process_file E R root f s1 = (x, s2)"
      by (cases "adb_process_file E R root f s1")
    from scan_potential_poll_false[OF c, where s=s]
      call_potential_poll_false[OF c, where s=s and w=w] i False
      potentials_adb_process_file[OF w, where k=k and E=E and R=R and root=root and f=f and s=s1] p
    have b2: "bounded w k s s2" by (simp add: bounded_def)
    from bounded_trans[OF b2 Cons.IH[of s2]] b2 i p False show ?thesis
      by (cases x) simp_all
  qed
qed

lemma bounded_local_names_loop:
  assumes c: "cancel_at E = Some k" and w: "\<forall>c. w c \<le> 1"
  shows "bounded w k s (snd (local_names_loop E R media_root dir names s))"
proof (induction names arbitrary: s)
  case Nil
  then show ?case by (simp add: bounded_refl)
next
  case (Cons f rest)
  obtain b s1 where i: "is_set E s = (b, s1)" by (cases "is_set E s")
  show ?case
  proof (cases b)
    case True
    with bounded_poll_true[OF c, where s=s and w=w] i show ?thesis by simp
  next
    case False
    obtain x s2 where p: "local_process_file E R media_root dir f s1 = (x, s2)"
      by (cases "local_process_file E R media_root dir f s1")
    from scan_potential_poll_false[OF c, where s=s]
      call_potential_poll_false[OF c, where s=s and w=w] i False
      potentials_local_process_file[OF w, where k=k and E=E and R=R and media_root=media_root and dir=dir and name=f and s=s1] p
    have b2: "bounded w k s s2" by (simp add: bounded_def)
    from bounded_trans[OF b2 Cons.IH[of s2]] b2 i p False show ?thesis
      by (cases x) simp_all
  qed
qed

lemma bounded_after_false_poll:
  assumes c: "cancel_at E = Some k" and i: "is_set E s = (False, s1)"
  shows "bounded w k s s1"
  using scan_potential_poll_false[OF c, where s=s]
      call_potential_poll_false[OF c, where s=s and w=w] i by (simp add: bounded_def)

lemma bounded_local_walk_loop:
  assumes c: "cancel_at E = Some k" and w: "\<forall>c. w c \<le> 1"
  shows "bounded w k s (snd (local_walk_loop E R media_root dirs s))"
proof (induction dirs arbitrary: s)
  case Nil
  then show ?case by (simp add: bounded_refl)
next
  case (Cons d rest)
  obtain dir files where d: "d = (dir, files)" by (cases d)
  obtain b s1 where i: "is_set E s = (b, s1)" by (cases "is_set E s")
  show ?case
  proof (cases b)
    case True
    with bounded_poll_true[OF c, where s=s and w=w] i d show ?thesis by simp
  next
    case False
    obtain x s2 where p: "local_names_loop E R media_root dir files s1 = (x, s2)"
      by (cases "local_names_loop E R media_root dir files s1")
    from bounded_after_false_poll[OF c, where s=s and ?s1.0=s1 and w=w] i False have b1: "bounded w k s s1" by simp
    from bounded_local_names_loop[OF c w, where s=s1 and R=R and media_root=media_root and dir=dir and names=files] p
    have "bounded w k s1 s2" by simp
    with b1 have b2: "bounded w k s s2" by (rule bounded_trans)
    from bounded_trans[OF b2 Cons.IH[of s2]] b2 i p d False show ?thesis
      by (cases x) simp_all
  qed
qed

lemma bounded_local_subs_loop:
  assumes c: "cancel_at E = Some k" and w: "\<forall>c. w c \<le> 1"
  shows "bounded w k s (snd (local_subs_loop E R media_root subs s))"
proof (induction subs arbitrary: s)
  case Nil
  then show ?case by (simp add: bounded_refl)
next
  case (Cons sub rest)
  let ?d = "path_join media_root sub"
  obtain b s1 where i: "is_set E s = (b, s1)" by (cases "is_set E s")
  show ?case
  proof (cases b)
    case True
    with bounded_poll_true[OF c, where s=s and w=w] i show ?thesis by simp
  next
    case False
    from bounded_after_false_poll[OF c, where s=s and ?s1.0=s1 and w=w] i False have b1: "bounded w k s s1" by simp
    show ?thesis
    proof (cases "isdir E ?d")
      case nd: False
      let ?s' = "put (Log (''Skipping missing folder: '' @ ?d)) s1"
      from b1 bounded_put[where w=w and k=k and s=s1] have "bounded w k s ?s'" by (rule bounded_trans)
      from bounded_trans[OF this Cons.IH[of ?s']] i False nd show ?thesis
        by (simp add: Let_def)
    next
      case True
      obtain x s2 where p: "local_walk_loop E R media_root (walk E ?d) s1 = (x, s2)"
        by (cases "local_walk_loop E R media_root (walk E ?d) s1")
      from bounded_local_walk_loop[OF c w, where s=s1 and R=R and media_root=media_root and dirs="walk E ?d"] p
      have "bounded w k s1 s2" by simp
      with b1 have b2: "bounded w k s s2" by (rule bounded_trans)
      from bounded_trans[OF b2 Cons.IH[of s2]] b2 i p True False show ?thesis
        by (cases x) (simp_all add: Let_def)
    qed
  qed
qed

lemma bounded_two_calls:
  assumes w: "\<forall>c. w c \<le> 1" and c: "cancel_at E = Some k" and i: "is_set E s = (False, s1)"
  shows "bounded w k s (called c2 (called c1 s1))" and "bounded w k s (called c1 s1)"
proof -
  have "w c1 + w c2 \<le> 2" using w by (metis add_mono one_add_one)
  moreover have "w c1 \<le> 2" using w by (meson le_trans one_le_numeral)
  ultimately show "bounded w k s (called c2 (called c1 s1))" and "bounded w k s (called c1 s1)"
    using scan_potential_poll_false[OF c, where s=s]
      call_potential_poll_false[OF c, where s=s and w=w] i
    by (simp_all add: bounded_def scan_potential_def call_potential_def called_def)
qed

lemma bounded_adb_subs_loop:
  assumes c: "cancel_at E = Some k" and w: "\<forall>c. w c \<le> 1"
  shows "bounded w k s (snd (adb_subs_loop E R root subs s))"
proof (induction subs arbitrary: s)
  case Nil
  then show ?case by (simp add: bounded_refl)
next
  case (Cons sub rest)
  let ?d = "root @ ''/'' @ sub"
  obtain b s1 where i: "is_set E s = (b, s1)" by (cases "is_set E s")
  let ?s2 = "called (Adb_path_exists ?d) s1"
  let ?s3 = "called (Adb_find_files ?d) ?s2"
  show ?case
  proof (cases b)
    case True
    with bounded_poll_true[OF c, where s=s and w=w] i show ?thesis by simp
  next
    case False
    with i have i': "is_set E s = (False, s1)" by simp
    note b3 = bounded_two_calls(1)[OF w c i', where ?c2.0="Adb_find_files ?d" and ?c1.0="Adb_path_exists ?d"]
    note b2 = bounded_two_calls(2)[OF w c i', where ?c1.0="Adb_path_exists ?d"]
    show ?thesis
    proof (cases "adb_path_exists E (src_value R) ?d")
      case (Inl e)
      with i' b2 show ?thesis by (simp add: Let_def)
    next
      case (Inr ex)
      show ?thesis
      proof (cases ex)
        case False
        let ?s' = "put (Log (''Skipping missing folder: '' @ ?d)) ?s2"
        from b2 bounded_put[where w=w and k=k and s="?s2"] have "bounded w k s ?s'" by (rule bounded_trans)
        from bounded_trans[OF this Cons.IH[of ?s']] i' Inr False show ?thesis
          by (simp add: Let_def)
      next
        case True
        show ?thesis
        proof (cases "adb_find_files E (src_value R) ?d")
          case (Inl e)
          let ?s' = "record_error (error_msg ''ERROR listing files in: '' ?d e) ?s3"
          from b3 bounded_record_error[where w=w and k=k and s="?s3"] have b': "bounded w k s ?s'"
            by (rule bounded_trans)
          from bounded_trans[OF b' Cons.IH[of ?s']] b3 i' Inr True Inl show ?thesis
            by (simp add: Let_def)
        next
          case fl: (Inr files)
          obtain x s4 where p: "adb_files_loop E R root files ?s3 = (x, s4)"
            by (cases "adb_files_loop E R root files ?s3")
          from bounded_adb_files_loop[OF c w, where s="?s3" and R=R and root=root and files=files] p
          have "bounded w k ?s3 s4" by simp
          with b3 have b4: "bounded w k s s4" by (rule bounded_trans)
          from bounded_trans[OF b4 Cons.IH[of s4]] b4 i' Inr True fl p show ?thesis
            by (cases x) (simp_all add: Let_def)
        qed
      qed
    qed
  qed
qed

lemma bounded_adb_roots_loop:
  assumes c: "cancel_at E = Some k" and w: "\<forall>c. w c \<le> 1"
  shows "bounded w k s (snd (adb_roots_loop E R roots s))"
proof (induction roots arbitrary: s)
  case Nil
  then show ?case by (simp add: bounded_refl)
next
  case (Cons root rest)
  obtain b s1 where i: "is_set E s = (b, s1)" by (cases "is_set E s")
  show ?case
  proof (cases b)
    case True
    with bounded_poll_true[OF c, where s=s and w=w] i show ?thesis by simp
  next
    case False
    obtain x s2 where p: "adb_subs_loop E R root (subfolders R) s1 = (x, s2)"
      by (cases "adb_subs_loop E R root (subfolders R) s1")
    from bounded_after_false_poll[OF c, where s=s and ?s1.0=s1 and w=w] i False have b1: "bounded w k s s1" by simp
    from bounded_adb_subs_loop[OF c w, where s=s1 and R=R and root=root and subs="subfolders R"] p
    have "bounded w k s1 s2" by simp
    with b1 have b2: "bounded w k s s2" by (rule bounded_trans)
    from bounded_trans[OF b2 Cons.IH[of s2]] b2 i p False show ?thesis
      by (cases x) simp_all
  qed
qed

lemma adb_files_loop_polls:
  assumes c: "cancel_at E = None"
  shows "int (polls (snd (adb_files_loop E R root files s))) - scanned (snd (adb_files_loop E R root files s))
           = int (polls s) - scanned s"
proof (induction files arbitrary: s)
  case Nil
  then show ?case by simp
next
  case (Cons f rest)
  let ?s1 = "s\<lparr>polls := polls s + 1\<rparr>"
  obtain x s2 where p: "adb_process_file E R root f ?s1 = (x, s2)"
    by (cases "adb_process_file E R root f ?s1")
  from adb_process_file_effect(1,2)[where E=E and R=R and root=root and f=f and s="?s1"] p
  have sc: "scanned s2 = scanned s + 1" "polls s2 = polls s + 1" by simp_all
  from Cons.IH[of s2] is_set_never[OF c, of s] p sc show ?case
    by (cases x) simp_all
qed

lemma local_names_loop_polls:
  assumes c: "cancel_at E = None"
  shows "int (polls (snd (local_names_loop E R media_root dir names s))) -
           scanned (snd (local_names_loop E R media_root dir names s))
           = int (polls s) - scanned s"
proof (induction names arbitrary: s)
  case Nil
  then show ?case by simp
next
  case (Cons f rest)
  let ?s1 = "s\<lparr>polls := polls s + 1\<rparr>"
  obtain x s2 where p: "local_process_file E R media_root dir f ?s1 = (x, s2)"
    by (cases "local_process_file E R media_root dir f ?s1")
  from local_process_file_effect(1,2)[where E=E and R=R and media_root=media_root and root=dir
      and name=f and s="?s1"] p
  have sc: "scanned s2 = scanned s + 1" "polls s2 = polls s + 1" by simp_all
  from Cons.IH[of s2] is_set_never[OF c, of s] p sc show ?case
    by (cases x) simp_all
qed

lemma local_walk_loop_polls:
  assumes c: "cancel_at E = None"
  shows "fst (local_walk_loop E R media_root dirs s) = None \<Longrightarrow>
         int (polls (snd (local_walk_loop E R media_root dirs s))) -
           scanned (snd (local_walk_loop E R media_root dirs s))
           = int (polls s) - scanned s + int (length dirs)"
proof (induction dirs arbitrary: s)
  case Nil
  then show ?case by simp
next
  case (Cons d rest)
  obtain dir files where d: "d = (dir, files)" by (cases d)
  let ?s1 = "s\<lparr>polls := polls s + 1\<rparr>"
  note i = is_set_never[OF c, of s]
  obtain x s2 where p: "local_names_loop E R media_root dir files ?s1 = (x, s2)"
    by (cases "local_names_loop E R media_root dir files ?s1")
  from local_names_loop_polls[OF c, of R media_root dir files ?s1] p
  have s2: "int (polls s2) - scanned s2 = int (polls s) - scanned s + 1" by simp
  show ?case
  proof (cases x)
    case (Some e)
    with i p d Cons.prems show ?thesis by simp
  next
    case None
    with i p d
    have eq: "local_walk_loop E R media_root (d # rest) s = local_walk_loop E R media_root rest s2"
      by simp
    with Cons.prems have "fst (local_walk_loop E R media_root rest s2) = None" by simp
    from Cons.IH[OF this] eq s2 show ?thesis by simp
  qed
qed

lemma local_subs_loop_polls:
  assumes c: "cancel_at E = None"
  shows "fst (local_subs_loop E R media_root subs s) = None \<Longrightarrow>
         int (polls (snd (local_subs_loop E R media_root subs s))) -
           scanned (snd (local_subs_loop E R media_root subs s))
           = int (polls s) - scanned s + int (length subs) + local_walk_dirs E media_root subs"
proof (induction subs arbitrary: s)
  case Nil
  then show ?case by (simp add: local_walk_dirs_def)
next
  case (Cons sub rest)
  let ?d = "path_join media_root sub"
  let ?s1 = "s\<lparr>polls := polls s + 1\<rparr>"
  note i = is_set_never[OF c, of s]
  show ?case
  proof (cases "isdir E ?d")
    case False
    let ?s' = "put (Log (''Skipping missing folder: '' @ ?d)) ?s1"
    from i False
    have eq: "local_subs_loop E R media_root (sub # rest) s = local_subs_loop E R media_root rest ?s'"
      by (simp add: Let_def)
    with Cons.prems have "fst (local_subs_loop E R media_root rest ?s') = None" by simp
    from Cons.IH[OF this] eq False show ?thesis
      by (simp add: local_walk_dirs_def step_defs)
  next
    case True
    obtain x s2 where p: "local_walk_loop E R media_root (walk E ?d) ?s1 = (x, s2)"
      by (cases "local_walk_loop E R media_root (walk E ?d) ?s1")
    show ?thesis
    proof (cases x)
      case (Some e)
      with i p True Cons.prems show ?thesis by (simp add: Let_def)
    next
      case None
      with local_walk_loop_polls[OF c, of R media_root "walk E ?d" ?s1] p
      have s2: "int (polls s2) - scanned s2 =
                int (polls s) - scanned s + 1 + int (length (walk E ?d))" by simp
      from i p True None
      have eq: "local_subs_loop E R media_root (sub # rest) s = local_subs_loop E R media_root rest s2"
        by (simp add: Let_def)
      with Cons.prems have "fst (local_subs_loop E R media_root rest s2) = None" by simp
      from Cons.IH[OF this] eq s2 True show ?thesis by (simp add: local_walk_dirs_def)
    qed
  qed
qed

lemma adb_subs_loop_polls:
  assumes c: "cancel_at E = None"
  shows "fst (adb_subs_loop E R root subs s) = None \<Longrightarrow>
         int (polls (snd (adb_subs_loop E R root subs s))) -
           scanned (snd (adb_subs_loop E R root subs s))
           = int (polls s) - scanned s + int (length subs)"
proof (induction subs arbitrary: s)
  case Nil
  then show ?case by simp
next
  case (Cons sub rest)
  let ?d = "root @ ''/'' @ sub"
  let ?s1 = "s\<lparr>polls := polls s + 1\<rparr>"
  let ?s2 = "called (Adb_path_exists ?d) ?s1"
  let ?s3 = "called (Adb_find_files ?d) ?s2"
  note i = is_set_never[OF c, of s]
  show ?case
  proof (cases "adb_path_exists E (src_value R) ?d")
    case (Inl e)
    with i Cons.prems show ?thesis by (simp add: Let_def)
  next
    case (Inr b)
    note ex = this
    show ?thesis
    proof (cases b)
      case False
      let ?s' = "put (Log (''Skipping missing folder: '' @ ?d)) ?s2"
      from i ex False have eq: "adb_subs_loop E R root (sub # rest) s = adb_subs_loop E R root rest ?s'"
        by (simp add: Let_def)
      with Cons.prems have "fst (adb_subs_loop E R root rest ?s') = None" by simp
      from Cons.IH[OF this] eq show ?thesis by (simp add: step_defs)
    next
      case True
      note b = this
      show ?thesis
      proof (cases "adb_find_files E (src_value R) ?d")
        case (Inl e)
        show ?thesis
        proof (cases "catchable e")
          case False
          with i ex b Inl Cons.prems show ?thesis by (simp add: Let_def)
        next
          case True
          let ?s' = "record_error (error_msg ''ERROR listing files in: '' ?d e) ?s3"
          from i ex b Inl True
          have eq: "adb_subs_loop E R root (sub # rest) s = adb_subs_loop E R root rest ?s'"
            by (simp add: Let_def)
          with Cons.prems have "fst (adb_subs_loop E R root rest ?s') = None" by simp
          from Cons.IH[OF this] eq show ?thesis by (simp add: step_defs)
        qed
      next
        case (Inr files)
        obtain x s4 where p: "adb_files_loop E R root files ?s3 = (x, s4)"
          by (cases "adb_files_loop E R root files ?s3")
        from adb_files_loop_polls[OF c, of R root files ?s3] p
        have s4: "int (polls s4) - scanned s4 = int (polls s) - scanned s + 1"
          by (simp add: step_defs)
        show ?thesis
        proof (cases x)
          case (Some e)
          with i ex b Inr p Cons.prems show ?thesis by (simp add: Let_def)
        next
          case None
          with i ex b Inr p
          have eq: "adb_subs_loop E R root (sub # rest) s = adb_subs_loop E R root rest s4"
            by (simp add: Let_def)
          with Cons.prems have "fst (adb_subs_loop E R root rest s4) = None" by simp
          from Cons.IH[OF this] eq s4 show ?thesis by simp
        qed
      qed
    qed
  qed
qed

lemma adb_roots_loop_polls:
  assumes c: "cancel_at E = None"
  shows "fst (adb_roots_loop E R roots s) = None \<Longrightarrow>
         int (polls (snd (adb_roots_loop E R roots s))) - scanned (snd (adb_roots_loop E R roots s))
           = int (polls s) - scanned s +
             int (length roots) + int (length roots) * int (length (subfolders R))"
proof (induction roots arbitrary: s)
  case Nil
  then show ?case by simp
next
  case (Cons root rest)
  let ?s1 = "s\<lparr>polls := polls s + 1\<rparr>"
  note i = is_set_never[OF c, of s]
  obtain x s2 where p: "adb_subs_loop E R root (subfolders R) ?s1 = (x, s2)"
    by (cases "adb_subs_loop E R root (subfolders R) ?s1")
  show ?case
  proof (cases x)
    case (Some e)
    with i p Cons.prems show ?thesis by simp
  next
    case None
    with adb_subs_loop_polls[OF c, of R root "subfolders R" ?s1] p
    have s2: "int (polls s2) - scanned s2 =
              int (polls s) - scanned s + 1 + int (length (subfolders R))" by simp
    from i p None have eq: "adb_roots_loop E R (root # rest) s = adb_roots_loop E R rest s2" by simp
    with Cons.prems have "fst (adb_roots_loop E R rest s2) = None" by simp
    from Cons.IH[OF this] eq s2 show ?thesis by (simp add: algebra_simps)
  qed
qed

lemma scan_weight_le: "\<forall>c. scan_weight c \<le> 1"
  by (simp add: scan_weight_def)

lemma sum_scan_weight: "sum_list (map scan_weight tr) = length (scan_calls tr)"
  by (induction tr) (simp_all add: scan_weight_def scan_calls_def)

lemma bounded_probe:
  "bounded scan_weight k s (called (Adb_path_exists p) s)"
  "bounded scan_weight k s (called (Adb_count_files p) s)"
  by (simp_all add: bounded_def scan_potential_def call_potential_def called_def scan_weight_def)

lemma bounded_find_roots_loop:
  "bounded scan_weight k s (snd (find_roots_loop E d cs s))"
proof (induction cs arbitrary: s)
  case Nil
  then show ?case by (simp add: bounded_refl)
next
  case (Cons c cs)
  let ?s1 = "called (Adb_path_exists c) s"
  have b1: "bounded scan_weight k s ?s1" by (rule bounded_probe)
  obtain x s2 where p: "find_roots_loop E d cs ?s1 = (x, s2)"
    by (cases "find_roots_loop E d cs ?s1")
  with Cons.IH[of ?s1] have "bounded scan_weight k ?s1 s2" by simp
  with b1 have b2: "bounded scan_weight k s s2" by (rule bounded_trans)
  from b1 b2 p show ?case
    by (cases "adb_path_exists E d c"; cases x) (simp_all add: Let_def)
qed

lemma bounded_adb_total_subs:
  "bounded scan_weight k s (snd (adb_total_subs E d root subs tot s))"
proof (induction subs arbitrary: s tot)
  case Nil
  then show ?case by (simp add: bounded_refl)
next
  case (Cons sub rest)
  let ?d = "root @ ''/'' @ sub"
  let ?s1 = "called (Adb_path_exists ?d) s"
  let ?s2 = "called (Adb_count_files ?d) ?s1"
  have b1: "bounded scan_weight k s ?s1" by (rule bounded_probe)
  have "bounded scan_weight k ?s1 ?s2" by (rule bounded_probe)
  with b1 have b2: "bounded scan_weight k s ?s2" by (rule bounded_trans)
  show ?case
  proof (cases "adb_path_exists E d ?d")
    case (Inl e)
    with b1 show ?thesis by (simp add: Let_def)
  next
    case (Inr b)
    show ?thesis
    proof (cases b)
      case False
      from bounded_trans[OF b1 Cons.IH[of ?s1 tot]] Inr False show ?thesis by (simp add: Let_def)
    next
      case True
      show ?thesis
      proof (cases "adb_count_files E d ?d")
        case (Inl e)
        with Inr True b2 show ?thesis by (simp add: Let_def)
      next
        case n: (Inr n)
        from bounded_trans[OF b2 Cons.IH[of ?s2 "tot + n"]] Inr True n show ?thesis
          by (simp add: Let_def)
      qed
    qed
  qed
qed

lemma bounded_adb_total_roots:
  "bounded scan_weight k s (snd (adb_total_roots E d roots subs tot s))"
proof (induction roots arbitrary: s tot)
  case Nil
  then show ?case by (simp add: bounded_refl)
next
  case (Cons root rest)
  obtain x s1 where p: "adb_total_subs E d root subs tot s = (x, s1)"
    by (cases "adb_total_subs E d root subs tot s")
  with bounded_adb_total_subs[of k s E d root subs tot] have b1: "bounded scan_weight k s s1" by simp
  show ?case
  proof (cases x)
    case (Inl e)
    with p b1 show ?thesis by simp
  next
    case (Inr t)
    from bounded_trans[OF b1 Cons.IH[of s1 t]] p Inr show ?thesis by simp
  qed
qed

lemma bounded_announce_total: "bounded w k s (announce_total n s)"
  by (simp add: bounded_def scan_potential_def call_potential_def announce_total_def put_def)

lemma bounded_fatal_handler: "bounded w k s (snd (fatal_handler m e s))"
  by (simp add: fatal_handler_def bounded_record_error bounded_refl)

lemma bounded_final_log:
  assumes c: "cancel_at E = Some k"
  shows "bounded w k s (final_log E m s)"
proof -
  obtain b s1 where i: "is_set E s = (b, s1)" by (cases "is_set E s")
  have "bounded w k s s1"
  proof (cases b)
    case True
    with bounded_poll_true[OF c, where s=s and w=w] i show ?thesis by simp
  next
    case False
    with bounded_after_false_poll[OF c, where s=s and ?s1.0=s1 and w=w] i show ?thesis by simp
  qed
  from bounded_trans[OF this bounded_put] i show ?thesis by (simp add: final_log_def)
qed

lemma bounded_worker_adb:
  assumes c: "cancel_at E = Some k"
  shows "bounded scan_weight k s (snd (worker_adb E R s))"
proof -
  let ?dev = "src_value R"
  let ?w = scan_weight
  obtain x s1 where f: "adb_find_whatsapp_media_roots E ?dev s = (x, s1)"
    by (cases "adb_find_whatsapp_media_roots E ?dev s")
  with bounded_find_roots_loop[of k s E ?dev media_root_candidates]
  have b1: "bounded ?w k s s1" by (simp add: adb_find_whatsapp_media_roots_def)
  show ?thesis
  proof (cases x)
    case (Inl e)
    with f bounded_trans[OF b1 bounded_fatal_handler] show ?thesis by (simp add: worker_adb_def)
  next
    case (Inr roots)
    note x = this
    show ?thesis
    proof (cases "roots = []")
      case True
      from bounded_trans[OF bounded_trans[OF b1 bounded_put] bounded_put] f x True show ?thesis
        by (simp add: worker_adb_def)
    next
      case False
      let ?s2 = "put (Log (''Using WhatsApp Media root(s): '' @ join_str '', '' roots)) s1"
      have b2: "bounded ?w k s ?s2" by (rule bounded_trans[OF b1 bounded_put])
      obtain y s3 where t: "adb_total_roots E ?dev roots (subfolders R) 0 ?s2 = (y, s3)"
        by (cases "adb_total_roots E ?dev roots (subfolders R) 0 ?s2")
      with bounded_adb_total_roots[of k ?s2 E ?dev roots "subfolders R" 0]
      have "bounded ?w k ?s2 s3" by simp
      with b2 have b3: "bounded ?w k s s3" by (rule bounded_trans)
      show ?thesis
      proof (cases y)
        case (Inl e)
        with f x False t bounded_trans[OF b3 bounded_fatal_handler] show ?thesis
          by (simp add: worker_adb_def Let_def)
      next
        case (Inr tot)
        obtain z s4 where l: "adb_roots_loop E R roots (announce_total tot s3) = (z, s4)"
          by (cases "adb_roots_loop E R roots (announce_total tot s3)")
        with bounded_adb_roots_loop[OF c scan_weight_le, where s="announce_total tot s3"
            and R=R and roots=roots]
        have "bounded ?w k (announce_total tot s3) s4" by simp
        with bounded_trans[OF b3 bounded_announce_total] have b4: "bounded ?w k s s4"
          by (rule bounded_trans)
        from f x False t Inr l bounded_trans[OF b4 bounded_fatal_handler]
          bounded_trans[OF b4 bounded_final_log[OF c]]
        show ?thesis by (cases z) (simp_all add: worker_adb_def Let_def)
      qed
    qed
  qed
qed

lemma bounded_worker_local:
  assumes c: "cancel_at E = Some k"
  shows "bounded scan_weight k s (snd (worker_local E R s))"
proof -
  let ?w = scan_weight
  let ?mr = "detect_media_root E (src_value R)"
  let ?s1 = "announce_total (estimate_total_files_local E ?mr (subfolders R))
               (put (Log (''Media root detected: '' @ ?mr)) s)"
  have b1: "bounded ?w k s ?s1" by (rule bounded_trans[OF bounded_put bounded_announce_total])
  obtain z s2 where l: "local_subs_loop E R ?mr (subfolders R) ?s1 = (z, s2)"
    by (cases "local_subs_loop E R ?mr (subfolders R) ?s1")
  with bounded_local_subs_loop[OF c scan_weight_le, where s="?s1" and R=R and media_root="?mr"
      and subs="subfolders R"]
  have "bounded ?w k ?s1 s2" by simp
  with b1 have b2: "bounded ?w k s s2" by (rule bounded_trans)
  from l bounded_trans[OF b2 bounded_fatal_handler] bounded_trans[OF b2 bounded_final_log[OF c]]
  show ?thesis by (cases z) (simp_all add: worker_local_def Let_def)
qed

lemma bounded_worker_dispatch:
  assumes c: "cancel_at E = Some k"
  shows "bounded scan_weight k s (snd (worker_dispatch E R s))"
proof -
  have "bounded scan_weight k s
          (snd (if src_mode R = ''adb'' then worker_adb E R s else worker_local E R s))"
    by (simp add: bounded_worker_adb[OF c] bounded_worker_local[OF c])
  from bounded_trans[OF this bounded_put] show ?thesis by (simp add: worker_dispatch_snd)
qed

lemma bounded_scanned:
  "bounded w k s s' \<Longrightarrow> scanned s' \<le> scanned s + int (k - polls s)"
  by (simp add: bounded_def scan_potential_def)

lemma bounded_calls:
  "bounded (\<lambda>c. 1) k s s' \<Longrightarrow> length (trace s') \<le> length (trace s) + 2 * (k - polls s)"
  by (simp add: bounded_def call_potential_def sum_list_triv)

lemma bounded_scan_calls:
  "bounded scan_weight k s s' \<Longrightarrow>
     length (scan_calls (trace s')) \<le> length (scan_calls (trace s)) + 2 * (k - polls s)"
  by (simp add: bounded_def call_potential_def sum_scan_weight)

text \<open>
  Claim C4. Cancellation is cooperative. In the scan, the latch is polled before each root,
  before each folder, before each directory of a local walk and before each file, and the
  processing of one file never polls it: in a run that is not cancelled the polls are one
  for each root, folder, walked directory and scanned file. Once the latch is set, every
  loop that is entered polls once and leaves without scanning, listing or transferring
  anything, and the run logs that it was cancelled. If the latch is set from poll \<open>k\<close>
  on, then from any state of the run at most as many further files are scanned as polls
  are left before \<open>k\<close>, and at most twice as many further calls are made by the loops;
  for a whole run of the worker this bounds the files scanned and the listings, time
  queries and transfers made. So at most the file whose processing has begun is finished,
  and the remaining roots, folders and files are skipped. The search for the roots and
  the estimate of the total come before the first poll and do not look at the latch.
\<close>

theorem cancellation_checked_between_items:
  "(cancel_at E = Some k \<and> k \<le> polls s \<longrightarrow>
      adb_roots_loop E R roots s = (None, if roots = [] then s else s\<lparr>polls := polls s + 1\<rparr>) \<and>
      adb_subs_loop E R root subs s = (None, if subs = [] then s else s\<lparr>polls := polls s + 1\<rparr>) \<and>
      adb_files_loop E R root files s = (None, if files = [] then s else s\<lparr>polls := polls s + 1\<rparr>) \<and>
      local_subs_loop E R media_root subs s =
        (None, if subs = [] then s else s\<lparr>polls := polls s + 1\<rparr>) \<and>
      local_walk_loop E R media_root dirs s =
        (None, if dirs = [] then s else s\<lparr>polls := polls s + 1\<rparr>) \<and>
      local_names_loop E R media_root dir names s =
        (None, if names = [] then s else s\<lparr>polls := polls s + 1\<rparr>) \<and>
      final_log E msg s = put (Log ''Cancelled by user.'') (s\<lparr>polls := polls s + 1\<rparr>)) \<and>
   (cancel_at E = Some k \<and> k \<le> polls s + 1 \<longrightarrow>
      scanned (snd (adb_files_loop E R root files s)) \<le> scanned s + 1 \<and>
      scanned (snd (local_names_loop E R media_root dir names s)) \<le> scanned s + 1) \<and>
   polls (snd (adb_process_file E R root f s)) = polls s \<and>
   polls (snd (local_process_file E R media_root dir name s)) = polls s \<and>
   (cancel_at E = Some k \<longrightarrow>
      scanned (snd (adb_roots_loop E R roots s)) \<le> scanned s + int (k - polls s) \<and>
      length (trace (snd (adb_roots_loop E R roots s))) \<le> length (trace s) + 2 * (k - polls s) \<and>
      scanned (snd (adb_subs_loop E R root subs s)) \<le> scanned s + int (k - polls s) \<and>
      length (trace (snd (adb_subs_loop E R root subs s))) \<le> length (trace s) + 2 * (k - polls s) \<and>
      scanned (snd (adb_files_loop E R root files s)) \<le> scanned s + int (k - polls s) \<and>
      length (trace (snd (adb_files_loop E R root files s))) \<le> length (trace s) + 2 * (k - polls s) \<and>
      scanned (snd (local_subs_loop E R media_root subs s)) \<le> scanned s + int (k - polls s) \<and>
      length (trace (snd (local_subs_loop E R media_root subs s)))
        \<le> length (trace s) + 2 * (k - polls s) \<and>
      scanned (snd (local_walk_loop E R media_root dirs s)) \<le> scanned s + int (k - polls s) \<and>
      length (trace (snd (local_walk_loop E R media_root dirs s)))
        \<le> length (trace s) + 2 * (k - polls s) \<and>
      scanned (snd (local_names_loop E R media_root dir names s)) \<le> scanned s + int (k - polls s) \<and>
      length (trace (snd (local_names_loop E R media_root dir names s)))
        \<le> length (trace s) + 2 * (k - polls s) \<and>
      scanned (snd (worker_dispatch E R s)) \<le> scanned s + int (k - polls s) \<and>
      length (scan_calls (trace (snd (worker_dispatch E R s))))
        \<le> length (scan_calls (trace s)) + 2 * (k - polls s)) \<and>
   (cancel_at E = None \<longrightarrow>
      int (polls (snd (adb_files_loop E R root files s))) - scanned (snd (adb_files_loop E R root files s))
        = int (polls s) - scanned s \<and>
      int (polls (snd (local_names_loop E R media_root dir names s))) -
          scanned (snd (local_names_loop E R media_root dir names s))
        = int (polls s) - scanned s) \<and>
   (cancel_at E = None \<and> fst (adb_subs_loop E R root subs s) = None \<longrightarrow>
      int (polls (snd (adb_subs_loop E R root subs s))) - scanned (snd (adb_subs_loop E R root subs s))
        = int (polls s) - scanned s + int (length subs)) \<and>
   (cancel_at E = None \<and> fst (adb_roots_loop E R roots s) = None \<longrightarrow>
      int (polls (snd (adb_roots_loop E R roots s))) - scanned (snd (adb_roots_loop E R roots s))
        = int (polls s) - scanned s +
          int (length roots) + int (length roots) * int (length (subfolders R))) \<and>
   (cancel_at E = None \<and> fst (local_walk_loop E R media_root dirs s) = None \<longrightarrow>
      int (polls (snd (local_walk_loop E R media_root dirs s))) -
          scanned (snd (local_walk_loop E R media_root dirs s))
        = int (polls s) - scanned s + int (length dirs)) \<and>
   (cancel_at E = None \<and> fst (local_subs_loop E R media_root subs s) = None \<longrightarrow>
      int (polls (snd (local_subs_loop E R media_root subs s))) -
          scanned (snd (local_subs_loop E R media_root subs s))
        = int (polls s) - scanned s + int (length subs) + local_walk_dirs E media_root subs)"
proof -
  have a: "cancel_at E = Some k \<and> k \<le> polls s \<longrightarrow>
      adb_roots_loop E R roots s = (None, if roots = [] then s else s\<lparr>polls := polls s + 1\<rparr>) \<and>
      adb_subs_loop E R root subs s = (None, if subs = [] then s else s\<lparr>polls := polls s + 1\<rparr>) \<and>
      adb_files_loop E R root files s = (None, if files = [] then s else s\<lparr>polls := polls s + 1\<rparr>) \<and>
      local_subs_loop E R media_root subs s =
        (None, if subs = [] then s else s\<lparr>polls := polls s + 1\<rparr>) \<and>
      local_walk_loop E R media_root dirs s =
        (None, if dirs = [] then s else s\<lparr>polls := polls s + 1\<rparr>) \<and>
      local_names_loop E R media_root dir names s =
        (None, if names = [] then s else s\<lparr>polls := polls s + 1\<rparr>) \<and>
      final_log E msg s = put (Log ''Cancelled by user.'') (s\<lparr>polls := polls s + 1\<rparr>)"
    using adb_roots_loop_skipped[of E k s R roots] adb_subs_loop_skipped[of E k s R root subs]
      adb_files_loop_skipped[of E k s R root files]
      local_subs_loop_skipped[of E k s R media_root subs]
      local_walk_loop_skipped[of E k s R media_root dirs]
      local_names_loop_skipped[of E k s R media_root dir names]
      is_set_when_set[of E k s]
    by (simp add: final_log_def)
  have b: "cancel_at E = Some k \<and> k \<le> polls s + 1 \<longrightarrow>
      scanned (snd (adb_files_loop E R root files s)) \<le> scanned s + 1 \<and>
      scanned (snd (local_names_loop E R media_root dir names s)) \<le> scanned s + 1"
    using adb_files_loop_in_flight[of E k s R root files]
      local_names_loop_in_flight[of E k s R media_root dir names] by blast
  have c: "polls (snd (adb_process_file E R root f s)) = polls s"
    by (rule adb_process_file_effect(2))
  have d: "polls (snd (local_process_file E R media_root dir name s)) = polls s"
    by (rule local_process_file_effect(2))
  have one: "\<forall>c::call. (1::nat) \<le> 1" by simp
  have e: "cancel_at E = Some k \<longrightarrow>
      scanned (snd (adb_roots_loop E R roots s)) \<le> scanned s + int (k - polls s) \<and>
      length (trace (snd (adb_roots_loop E R roots s))) \<le> length (trace s) + 2 * (k - polls s) \<and>
      scanned (snd (adb_subs_loop E R root subs s)) \<le> scanned s + int (k - polls s) \<and>
      length (trace (snd (adb_subs_loop E R root subs s))) \<le> length (trace s) + 2 * (k - polls s) \<and>
      scanned (snd (adb_files_loop E R root files s)) \<le> scanned s + int (k - polls s) \<and>
      length (trace (snd (adb_files_loop E R root files s))) \<le> length (trace s) + 2 * (k - polls s) \<and>
      scanned (snd (local_subs_loop E R media_root subs s)) \<le> scanned s + int (k - polls s) \<and>
      length (trace (snd (local_subs_loop E R media_root subs s)))
        \<le> length (trace s) + 2 * (k - polls s) \<and>
      scanned (snd (local_walk_loop E R media_root dirs s)) \<le> scanned s + int (k - polls s) \<and>
      length (trace (snd (local_walk_loop E R media_root dirs s)))
        \<le> length (trace s) + 2 * (k - polls s) \<and>
      scanned (snd (local_names_loop E R media_root dir names s)) \<le> scanned s + int (k - polls s) \<and>
      length (trace (snd (local_names_loop E R media_root dir names s)))
        \<le> length (trace s) + 2 * (k - polls s) \<and>
      scanned (snd (worker_dispatch E R s)) \<le> scanned s + int (k - polls s) \<and>
      length (scan_calls (trace (snd (worker_dispatch E R s))))
        \<le> length (scan_calls (trace s)) + 2 * (k - polls s)"
  proof
    assume ck: "cancel_at E = Some k"
    note r = bounded_adb_roots_loop[OF ck one, where s=s and R=R and roots=roots]
    note su = bounded_adb_subs_loop[OF ck one, where s=s and R=R and root=root and subs=subs]
    note fi = bounded_adb_files_loop[OF ck one, where s=s and R=R and root=root and files=files]
    note ls = bounded_local_subs_loop[OF ck one, where s=s and R=R and media_root=media_root
        and subs=subs]
    note lw = bounded_local_walk_loop[OF ck one, where s=s and R=R and media_root=media_root
        and dirs=dirs]
    note ln = bounded_local_names_loop[OF ck one, where s=s and R=R and media_root=media_root
        and dir=dir and names=names]
    note wd = bounded_worker_dispatch[OF ck, where s=s and R=R]
    from bounded_scanned[OF r] bounded_calls[OF r] bounded_scanned[OF su] bounded_calls[OF su]
      bounded_scanned[OF fi] bounded_calls[OF fi] bounded_scanned[OF ls] bounded_calls[OF ls]
      bounded_scanned[OF lw] bounded_calls[OF lw] bounded_scanned[OF ln] bounded_calls[OF ln]
      bounded_scanned[OF wd] bounded_scan_calls[OF wd]
    show "scanned (snd (adb_roots_loop E R roots s)) \<le> scanned s + int (k - polls s) \<and>
      length (trace (snd (adb_roots_loop E R roots s))) \<le> length (trace s) + 2 * (k - polls s) \<and>
      scanned (snd (adb_subs_loop E R root subs s)) \<le> scanned s + int (k - polls s) \<and>
      length (trace (snd (adb_subs_loop E R root subs s))) \<le> length (trace s) + 2 * (k - polls s) \<and>
      scanned (snd (adb_files_loop E R root files s)) \<le> scanned s + int (k - polls s) \<and>
      length (trace (snd (adb_files_loop E R root files s))) \<le> length (trace s) + 2 * (k - polls s) \<and>
      scanned (snd (local_subs_loop E R media_root subs s)) \<le> scanned s + int (k - polls s) \<and>
      length (trace (snd (local_subs_loop E R media_root subs s)))
        \<le> length (trace s) + 2 * (k - polls s) \<and>
      scanned (snd (local_walk_loop E R media_root dirs s)) \<le> scanned s + int (k - polls s) \<and>
      length (trace (snd (local_walk_loop E R media_root dirs s)))
        \<le> length (trace s) + 2 * (k - polls s) \<and>
      scanned (snd (local_names_loop E R media_root dir names s)) \<le> scanned s + int (k - polls s) \<and>
      length (trace (snd (local_names_loop E R media_root dir names s)))
        \<le> length (trace s) + 2 * (k - polls s) \<and>
      scanned (snd (worker_dispatch E R s)) \<le> scanned s + int (k - polls s) \<and>
      length (scan_calls (trace (snd (worker_dispatch E R s))))
        \<le> length (scan_calls (trace s)) + 2 * (k - polls s)"
      by blast
  qed
  have g: "cancel_at E = None \<longrightarrow>
      int (polls (snd (adb_files_loop E R root files s))) - scanned (snd (adb_files_loop E R root files s))
        = int (polls s) - scanned s \<and>
      int (polls (snd (local_names_loop E R media_root dir names s))) -
          scanned (snd (local_names_loop E R media_root dir names s))
        = int (polls s) - scanned s"
    using adb_files_loop_polls[where E=E and R=R and root=root and files=files and s=s]
      local_names_loop_polls[where E=E and R=R and media_root=media_root and dir=dir
        and names=names and s=s]
    by blast
  have h1: "cancel_at E = None \<and> fst (adb_subs_loop E R root subs s) = None \<longrightarrow>
      int (polls (snd (adb_subs_loop E R root subs s))) - scanned (snd (adb_subs_loop E R root subs s))
        = int (polls s) - scanned s + int (length subs)"
    using adb_subs_loop_polls[where E=E and R=R and root=root and subs=subs and s=s] by blast
  have h2: "cancel_at E = None \<and> fst (adb_roots_loop E R roots s) = None \<longrightarrow>
      int (polls (snd (adb_roots_loop E R roots s))) - scanned (snd (adb_roots_loop E R roots s))
        = int (polls s) - scanned s +
          int (length roots) + int (length roots) * int (length (subfolders R))"
    using adb_roots_loop_polls[where E=E and R=R and roots=roots and s=s] by blast
  have h3: "cancel_at E = None \<and> fst (local_walk_loop E R media_root dirs s) = None \<longrightarrow>
      int (polls (snd (local_walk_loop E R media_root dirs s))) -
          scanned (snd (local_walk_loop E R media_root dirs s))
        = int (polls s) - scanned s + int (length dirs)"
    using local_walk_loop_polls[where E=E and R=R and media_root=media_root and dirs=dirs and s=s]
    by blast
  have h4: "cancel_at E = None \<and> fst (local_subs_loop E R media_root subs s) = None \<longrightarrow>
      int (polls (snd (local_subs_loop E R media_root subs s))) -
          scanned (snd (local_subs_loop E R media_root subs s))
        = int (polls s) - scanned s + int (length subs) + local_walk_dirs E media_root subs"
    using local_subs_loop_polls[where E=E and R=R and media_root=media_root and subs=subs and s=s]
    by blast
  from a b c d e g h1 h2 h3 h4 show ?thesis by blast
qed

theorem cancellation_checked_between_items_witness:
  "cancel_at (demo_env\<lparr>cancel_at := Some 0\<rparr>) = Some 0 \<and> 0 \<le> polls demo_state \<and>
   adb_roots_loop (demo_env\<lparr>cancel_at := Some 0\<rparr>) (demo_request ''adb'') [''/r'', ''/q''] demo_state =
     (None, demo_state\<lparr>polls := 1\<rparr>) \<and>
   scanned (snd (worker_dispatch (demo_env\<lparr>cancel_at := Some 0\<rparr>) (demo_request ''local'') demo_state))
     \<le> scanned demo_state + int (0 - polls demo_state) \<and>
   scanned (snd (worker_dispatch (demo_env\<lparr>cancel_at := Some 0\<rparr>) (demo_request ''local'') demo_state)) = 0 \<and>
   ui_queue (snd (worker_dispatch (demo_env\<lparr>cancel_at := Some 0\<rparr>) (demo_request ''local'') demo_state)) =
     [Log ''Media root detected: src'', Progress_setup 2, Log ''Estimated total files to scan: 2'',
      Log ''Cancelled by user.'', Done] \<and>
   cancel_at (demo_env\<lparr>cancel_at := Some 1\<rparr>) = Some 1 \<and> 1 \<le> polls demo_state + 1 \<and>
   scanned (snd (local_names_loop (demo_env\<lparr>cancel_at := Some 1\<rparr>) (demo_request ''local'')
      ''src'' ''src/I'' [''a.jpg'', ''c.jpg''] demo_state)) = 1 \<and>
   matched (snd (local_names_loop (demo_env\<lparr>cancel_at := Some 1\<rparr>) (demo_request ''local'')
      ''src'' ''src/I'' [''a.jpg'', ''c.jpg''] demo_state)) = 1 \<and>
   scanned (snd (local_names_loop (demo_env\<lparr>cancel_at := Some 1\<rparr>) (demo_request ''local'')
      ''src'' ''src/I'' [''a.jpg'', ''c.jpg''] demo_state)) \<le> scanned demo_state + int (1 - polls demo_state) \<and>
   cancel_at demo_env = None \<and>
   fst (local_subs_loop demo_env (demo_request ''local'') ''src'' [''I''] demo_state) = None \<and>
   int (polls (snd (local_subs_loop demo_env (demo_request ''local'') ''src'' [''I''] demo_state))) -
     scanned (snd (local_subs_loop demo_env (demo_request ''local'') ''src'' [''I''] demo_state)) = 2"
proof -
  have e: "scanned (snd (local_names_loop (demo_env\<lparr>cancel_at := Some 1\<rparr>) (demo_request ''local'')
      ''src'' ''src/I'' [''a.jpg'', ''c.jpg''] demo_state)) = 1"
    "matched (snd (local_names_loop (demo_env\<lparr>cancel_at := Some 1\<rparr>) (demo_request ''local'')
      ''src'' ''src/I'' [''a.jpg'', ''c.jpg''] demo_state)) = 1"
    by code_simp+
  have r: "scanned (snd (worker_dispatch (demo_env\<lparr>cancel_at := Some 0\<rparr>) (demo_request ''local'') demo_state)) = 0"
    "ui_queue (snd (worker_dispatch (demo_env\<lparr>cancel_at := Some 0\<rparr>) (demo_request ''local'') demo_state)) =
     [Log ''Media root detected: src'', Progress_setup 2, Log ''Estimated total files to scan: 2'',
      Log ''Cancelled by user.'', Done]"
    by code_simp+
  have u: "fst (local_subs_loop demo_env (demo_request ''local'') ''src'' [''I''] demo_state) = None"
    "local_walk_dirs demo_env ''src'' [''I''] = 1"
    by code_simp+
  have p: "polls demo_state = 0" "scanned demo_state = 0" by (simp_all add: demo_state_def)
  have c: "cancel_at demo_env = None" by (simp add: demo_env_def)
  note t0 = cancellation_checked_between_items[where E="demo_env\<lparr>cancel_at := Some 0\<rparr>" and k=0
      and s=demo_state and R="demo_request ''adb''" and roots="[''/r'', ''/q'']"]
  note t1 = cancellation_checked_between_items[where E="demo_env\<lparr>cancel_at := Some 0\<rparr>" and k=0
      and s=demo_state and R="demo_request ''local''"]
  note t2 = cancellation_checked_between_items[where E="demo_env\<lparr>cancel_at := Some 1\<rparr>" and k=1
      and s=demo_state and R="demo_request ''local''" and media_root="''src''" and dir="''src/I''"
      and names="[''a.jpg'', ''c.jpg'']"]
  note t3 = cancellation_checked_between_items[where E=demo_env and s=demo_state
      and R="demo_request ''local''" and media_root="''src''" and subs="[''I'']"]
  from t0 p have a0: "adb_roots_loop (demo_env\<lparr>cancel_at := Some 0\<rparr>) (demo_request ''adb'')
      [''/r'', ''/q''] demo_state = (None, demo_state\<lparr>polls := 1\<rparr>)" by simp
  from t1 p have a1: "scanned (snd (worker_dispatch (demo_env\<lparr>cancel_at := Some 0\<rparr>)
      (demo_request ''local'') demo_state)) \<le> scanned demo_state + int (0 - polls demo_state)"
    by simp
  from t2 p have a2: "scanned (snd (local_names_loop (demo_env\<lparr>cancel_at := Some 1\<rparr>)
      (demo_request ''local'') ''src'' ''src/I'' [''a.jpg'', ''c.jpg''] demo_state))
      \<le> scanned demo_state + int (1 - polls demo_state)" by simp
  from t3 c u p have a3: "int (polls (snd (local_subs_loop demo_env (demo_request ''local'') ''src''
      [''I''] demo_state))) -
     scanned (snd (local_subs_loop demo_env (demo_request ''local'') ''src'' [''I''] demo_state)) = 2"
    by simp
  from a0 a1 a2 a3 e r u c p show ?thesis by simp
qed

section \<open>Validation of the request\<close>

lemma ensure_dir_result:
  "ensure_dir E p s = (Some e, s1) \<Longrightarrow> s1 = s \<and> p \<notin> set (existing s) \<and> makedirs E p = Some e"
  "ensure_dir E p s = (None, s1) \<Longrightarrow>
     (p \<in> set (existing s) \<and> s1 = s) \<or>
     (p \<notin> set (existing s) \<and> makedirs E p = None \<and>
      s1 = s\<lparr>existing := created_dirs p @ existing s\<rparr>)"
  by (auto simp: ensure_dir_def split: if_splits option.splits)

lemma validate_inputs_snd:
  "snd (validate_inputs E V s) =
     (if (strip (var_source_mode V) = ''adb'' \<or> strip (var_source_mode V) = ''local'') \<and>
         strip (var_dest V) \<noteq> []
      then snd (ensure_dir E (strip (var_dest V)) s) else s)"
  by (simp add: validate_inputs_def Let_def split: prod.splits option.splits sum.splits)

lemma validate_inputs_move_adb:
  assumes "strip (var_source_mode V) = ''adb''" and "var_mode V = ''move''"
  shows "\<exists>e. fst (validate_inputs E V s) = Inl e"
  using assms
  by (simp add: validate_inputs_def Let_def split: prod.splits option.splits sum.splits)

lemma on_start_rejected:
  assumes "fst (validate_inputs E V s) = Inl e"
  shows "on_start E V s =
     (if catchable e
      then (None, (snd (validate_inputs E V s))\<lparr>dialogs :=
                     dialogs (snd (validate_inputs E V s)) @ [str_exn e]\<rparr>)
      else (Some e, snd (validate_inputs E V s)))"
  using assms by (cases "validate_inputs E V s") (simp add: on_start_def)

lemma ensure_dir_keeps:
  "ui_queue (snd (ensure_dir E p s)) = ui_queue s"
  "trace (snd (ensure_dir E p s)) = trace s"
  "polls (snd (ensure_dir E p s)) = polls s"
  "scanned (snd (ensure_dir E p s)) = scanned s"
  "matched (snd (ensure_dir E p s)) = matched s"
  "errors (snd (ensure_dir E p s)) = errors s"
  "dialogs (snd (ensure_dir E p s)) = dialogs s"
  by (simp_all add: ensure_dir_def split: option.splits)

lemma validate_inputs_keeps:
  "ui_queue (snd (validate_inputs E V s)) = ui_queue s"
  "trace (snd (validate_inputs E V s)) = trace s"
  "polls (snd (validate_inputs E V s)) = polls s"
  "scanned (snd (validate_inputs E V s)) = scanned s"
  "matched (snd (validate_inputs E V s)) = matched s"
  "errors (snd (validate_inputs E V s)) = errors s"
  "dialogs (snd (validate_inputs E V s)) = dialogs s"
  by (simp_all add: validate_inputs_snd ensure_dir_keeps)

lemma validate_inputs_move_adb_message:
  assumes "strip (var_source_mode V) = ''adb''" and "var_mode V = ''move''"
    and "strip (var_dest V) \<noteq> []"
    and "fst (ensure_dir E (strip (var_dest V)) s) = None"
    and "parse_yyyy_mm_dd E (var_start V) = Inr a"
    and "parse_yyyy_mm_dd E (var_end V) = Inr b"
    and "\<not> replace_hms b < a"
    and "filter snd (subfolder_vars V) \<noteq> []"
    and "strip (var_device V) \<noteq> []"
  shows "fst (validate_inputs E V s) =
     Inl (ValueError ''Move mode is not supported in USB Device (ADB) mode. Use Copy.'')"
  using assms
  by (cases "ensure_dir E (strip (var_dest V)) s")
     (simp add: validate_inputs_def Let_def)

text \<open>
  Claim C6. When the source type is the device and the export mode is \<open>move\<close>,
  \<open>_validate_inputs\<close> raises, whatever the other fields hold, and \<open>_on_start\<close> returns
  without starting the worker: the event queue, the call log (so not one call of the device
  bridge), the poll count and the counters are as before, and an \<open>Exception\<close> ends in the
  message box. When the checks that come first pass (destination given and created or
  present, both dates parsed and in order, a subfolder chosen, a device chosen), the
  exception is the \<open>ValueError\<close> of the move check, and its message is the one shown.
\<close>

theorem move_with_adb_rejected_by_validation:
  assumes "strip (var_source_mode V) = ''adb''" and "var_mode V = ''move''"
  shows "(\<exists>e. fst (validate_inputs E V s) = Inl e \<and>
            fst (on_start E V s) = (if catchable e then None else Some e) \<and>
            dialogs (snd (on_start E V s)) =
              (if catchable e then dialogs s @ [str_exn e] else dialogs s)) \<and>
         ui_queue (snd (on_start E V s)) = ui_queue s \<and>
         trace (snd (on_start E V s)) = trace s \<and>
         polls (snd (on_start E V s)) = polls s \<and>
         scanned (snd (on_start E V s)) = scanned s \<and>
         matched (snd (on_start E V s)) = matched s \<and>
         errors (snd (on_start E V s)) = errors s \<and>
         (strip (var_dest V) \<noteq> [] \<and>
          fst (ensure_dir E (strip (var_dest V)) s) = None \<and>
          parse_yyyy_mm_dd E (var_start V) = Inr a \<and>
          parse_yyyy_mm_dd E (var_end V) = Inr b \<and>
          \<not> replace_hms b < a \<and>
          filter snd (subfolder_vars V) \<noteq> [] \<and>
          strip (var_device V) \<noteq> [] \<longrightarrow>
          fst (validate_inputs E V s) =
            Inl (ValueError ''Move mode is not supported in USB Device (ADB) mode. Use Copy.'') \<and>
          fst (on_start E V s) = None \<and>
          dialogs (snd (on_start E V s)) =
            dialogs s @ [''Move mode is not supported in USB Device (ADB) mode. Use Copy.''])"
proof -
  from validate_inputs_move_adb[OF assms] obtain e
    where e: "fst (validate_inputs E V s) = Inl e" by blast
  note o = on_start_rejected[OF e]
  have k: "ui_queue (snd (on_start E V s)) = ui_queue s"
    "trace (snd (on_start E V s)) = trace s"
    "polls (snd (on_start E V s)) = polls s"
    "scanned (snd (on_start E V s)) = scanned s"
    "matched (snd (on_start E V s)) = matched s"
    "errors (snd (on_start E V s)) = errors s"
    by (simp_all add: o validate_inputs_keeps)
  have d: "fst (on_start E V s) = (if catchable e then None else Some e)"
    "dialogs (snd (on_start E V s)) =
       (if catchable e then dialogs s @ [str_exn e] else dialogs s)"
    by (simp_all add: o validate_inputs_keeps)
  have m: "fst (on_start E V s) = None \<and>
          dialogs (snd (on_start E V s)) =
            dialogs s @ [''Move mode is not supported in USB Device (ADB) mode. Use Copy.'']"
    if "fst (validate_inputs E V s) =
            Inl (ValueError ''Move mode is not supported in USB Device (ADB) mode. Use Copy.'')"
    using on_start_rejected[OF that] by (simp add: validate_inputs_keeps)
  from e d k m validate_inputs_move_adb_message[OF assms, of E s a b] show ?thesis
    by blast
qed

theorem move_with_adb_rejected_by_validation_witness:
  "strip (var_source_mode (demo_vars\<lparr>var_mode := ''move''\<rparr>)) = ''adb'' \<and>
   var_mode (demo_vars\<lparr>var_mode := ''move''\<rparr>) = ''move'' \<and>
   fst (validate_inputs demo_env (demo_vars\<lparr>var_mode := ''move''\<rparr>) demo_state) =
     Inl (ValueError ''Move mode is not supported in USB Device (ADB) mode. Use Copy.'') \<and>
   fst (on_start demo_env (demo_vars\<lparr>var_mode := ''move''\<rparr>) demo_state) = None \<and>
   dialogs (snd (on_start demo_env (demo_vars\<lparr>var_mode := ''move''\<rparr>) demo_state)) =
     [''Move mode is not supported in USB Device (ADB) mode. Use Copy.''] \<and>
   ui_queue (snd (on_start demo_env (demo_vars\<lparr>var_mode := ''move''\<rparr>) demo_state)) = [] \<and>
   trace (snd (on_start demo_env (demo_vars\<lparr>var_mode := ''move''\<rparr>) demo_state)) = []"
proof -
  let ?V = "demo_vars\<lparr>var_mode := ''move''\<rparr>"
  have a: "strip (var_source_mode ?V) = ''adb''" by code_simp
  have b: "var_mode ?V = ''move''" by simp
  have c: "strip (var_dest ?V) \<noteq> []" by code_simp
  have d: "fst (ensure_dir demo_env (strip (var_dest ?V)) demo_state) = None" by code_simp
  have e: "parse_yyyy_mm_dd demo_env (var_start ?V) = Inr 86400000000" by code_simp
  have f: "parse_yyyy_mm_dd demo_env (var_end ?V) = Inr 172800000000" by code_simp
  have g: "\<not> replace_hms 172800000000 < 86400000000" by (simp add: replace_hms_def)
  have h: "filter snd (subfolder_vars ?V) \<noteq> []" by (simp add: demo_vars_def)
  have i: "strip (var_device ?V) \<noteq> []" by code_simp
  have q: "ui_queue demo_state = []" "trace demo_state = []" "dialogs demo_state = []"
    by (simp_all add: demo_state_def)
  from move_with_adb_rejected_by_validation[OF a b, of demo_env demo_state
      86400000000 172800000000] a b c d e f g h i q
  show ?thesis by simp
qed

section \<open>The estimate of the local folder mode\<close>

lemma walk_files_Cons [simp]:
  "walk_files ((d, files) # rest) = int (length files) + walk_files rest"
  by (simp add: walk_files_def)

lemma walk_files_Nil [simp]: "walk_files [] = 0"
  by (simp add: walk_files_def)


lemma walk_files_append [simp]: "walk_files (xs @ ys) = walk_files xs + walk_files ys"
  by (simp add: walk_files_def)






lemma mode_events_append [simp]:
  "mode_events (xs @ ys) = mode_events xs @ mode_events ys"
  by (simp add: mode_events_def)

lemma mode_events_Cons [simp]:
  "mode_events (e # evs) = (if is_mode_event e then e # mode_events evs else mode_events evs)"
  by (simp add: mode_events_def)

lemma mode_events_Nil [simp]: "mode_events [] = []"
  by (simp add: mode_events_def)










lemma demo_estimate:
  "estimate_total_files_local demo_env (detect_media_root demo_env ''src'') [''I''] = 2"
  by (simp add: estimate_total_files_local_def detect_media_root_def
      demo_env_def path_join_def startswith_def Let_def)






section \<open>The side effect of validation\<close>








end
